theory Spec2Isabelle
  imports Complex_Main "HOL-Library.Multiset"
begin

section \<open>Data model\<close>

text \<open>
  A shallow embedding of \<^verbatim>\<open>src/algos/dqn.py\<close>: the batch builder \<^verbatim>\<open>create_batch\<close> and the
  training loop of the script body.

  Numbers: rewards, action values, losses, \<^verbatim>\<open>gamma\<close> and \<^verbatim>\<open>tau\<close> are Python/numpy floats; they
  are embedded as \<^typ>\<open>real\<close>, i.e. with exact arithmetic (no rounding, no nan or inf; the one
  place where the source can divide by zero is written out in \<open>ratio_exceeds\<close>).
  Python integers (\<^verbatim>\<open>step\<close>, \<^verbatim>\<open>steps_limit\<close>, \<^verbatim>\<open>num_episodes\<close>, \<^verbatim>\<open>iter_no\<close>) are \<^typ>\<open>int\<close>;
  an action is an index into the action-value vector, a \<^typ>\<open>nat\<close>.

  The exceptions that the modelled lines can raise themselves.
\<close>

datatype error = ValueError | IndexError

text \<open>
  One entry of \<^verbatim>\<open>episode\<close>: \<^verbatim>\<open>(state, q_value, action, reward)\<close>, and one entry of \<^verbatim>\<open>samples\<close>:
  \<^verbatim>\<open>(state, target_q)\<close>.
\<close>

type_synonym 's transition = "'s \<times> real list \<times> nat \<times> real"
type_synonym 's sample = "'s \<times> real list"

text \<open>
  The external collaborators, taken as parameters: the value model of type \<open>'m\<close>
  (\<^verbatim>\<open>run_model.predict_on_batch(np.array([state]))[0]\<close> and \<^verbatim>\<open>model.fit(...).history['loss']\<close>,
  the latter returning the fitted model too), the environment of type \<open>'e\<close>
  (\<^verbatim>\<open>env.reset()\<close>, \<^verbatim>\<open>env.step(action)\<close>) and numpy's global random state of type \<open>'g\<close>:
  \<open>np_random\<close> is \<^verbatim>\<open>np.random.random()\<close>, \<open>np_draw\<close> a raw draw of a natural number from
  which the bounded draws of \<^verbatim>\<open>np.random.randint\<close> and \<^verbatim>\<open>np.random.shuffle\<close> are taken.
\<close>

record ('m, 's, 'e, 'g) externals =
  predict_on_batch :: "'m \<Rightarrow> 's \<Rightarrow> real list"
  model_fit :: "'m \<Rightarrow> 's list \<Rightarrow> real list list \<Rightarrow> real list \<times> 'm"
  env_reset :: "'e \<Rightarrow> 's \<times> 'e"
  env_step :: "nat \<Rightarrow> 'e \<Rightarrow> ('s \<times> real \<times> bool) \<times> 'e"
  np_random :: "'g \<Rightarrow> real \<times> 'g"
  np_draw :: "'g \<Rightarrow> nat \<times> 'g"

text \<open>The variables of the play loop (lines 54 to 81).\<close>

record ('s, 'e, 'g) play_state =
  state :: 's
  step :: int
  sum_reward :: real
  episode :: "'s transition list"
  env :: 'e
  rng :: 'g

text \<open>
  The variables of the loop over episodes (lines 50 to 101). \<open>played\<close> is an auxiliary history
  variable that the source does not keep: every finished \<^verbatim>\<open>episode\<close> list with the \<^verbatim>\<open>last_q\<close>
  its play loop ended with. No modelled computation reads it.
\<close>

record ('s, 'e, 'g) batch_state =
  samples :: "'s sample list"
  rewards :: "real list"
  b_env :: 'e
  b_rng :: 'g
  played :: "('s transition list \<times> real list option) list"

text \<open>
  What \<^verbatim>\<open>create_batch\<close> leaves behind: the two aligned sequences it returns, the record it
  logs (\<^verbatim>\<open>iter_no\<close>, \<^verbatim>\<open>len(samples)\<close>, mean and max of \<^verbatim>\<open>rewards\<close>; \<open>None\<close> for a nan mean), the
  environment and the random state after the call, and the history variable.
\<close>

record ('s, 'e, 'g) batch_result =
  batch :: "'s list"
  target_y :: "real list list"
  logged :: "int \<times> nat \<times> real option \<times> real"
  r_env :: 'e
  r_rng :: 'g
  r_played :: "('s transition list \<times> real list option) list"

text \<open>The variables of the epoch loop (lines 148 to 159).\<close>

record 'm fit_state =
  model :: 'm
  start_loss :: "real option"
  loss :: "real option"
  epoch :: "nat option"

section \<open>Library functions used by the source\<close>

text \<open>Python's \<^verbatim>\<open>max\<close> of a sequence: the first element, replaced by any later greater one.\<close>

definition max_list :: "real list \<Rightarrow> error + real" where
  "max_list xs = (case xs of [] \<Rightarrow> Inl ValueError | x # ys \<Rightarrow> Inr (foldl max x ys))"

text \<open>\<^verbatim>\<open>np.max\<close>, \<^verbatim>\<open>np.min\<close> and \<^verbatim>\<open>np.mean\<close>: the first two raise on an empty array, the mean of
  an empty array is nan with a warning.\<close>

definition np_max :: "real list \<Rightarrow> error + real" where
  "np_max xs = (case xs of [] \<Rightarrow> Inl ValueError | x # ys \<Rightarrow> Inr (foldl max x ys))"

definition np_min :: "real list \<Rightarrow> error + real" where
  "np_min xs = (case xs of [] \<Rightarrow> Inl ValueError | x # ys \<Rightarrow> Inr (foldl min x ys))"

definition np_mean :: "real list \<Rightarrow> real option" where
  "np_mean xs = (if xs = [] then None else Some (sum_list xs / real (length xs)))"

text \<open>\<^verbatim>\<open>np.argmax\<close>: the index of the first greatest entry.\<close>

fun argmax_scan :: "real list \<Rightarrow> nat \<Rightarrow> nat \<Rightarrow> real \<Rightarrow> nat" where
  "argmax_scan [] i best m = best"
| "argmax_scan (y # ys) i best m =
     (if m < y then argmax_scan ys (i + 1) i y else argmax_scan ys (i + 1) best m)"

definition argmax :: "real list \<Rightarrow> error + nat" where
  "argmax xs = (case xs of [] \<Rightarrow> Inl ValueError | x # ys \<Rightarrow> Inr (argmax_scan ys 1 0 x))"

text \<open>\<^verbatim>\<open>np.random.randint(0, n)\<close>: an integer of \<open>[0, n)\<close>, an error when the range is empty.\<close>

definition randint :: "('m, 's, 'e, 'g) externals \<Rightarrow> nat \<Rightarrow> 'g \<Rightarrow> error + (nat \<times> 'g)" where
  "randint w n g =
     (if n = 0 then Inl ValueError
      else (case np_draw w g of (k, g') \<Rightarrow> Inr (k mod n, g')))"

text \<open>
  \<^verbatim>\<open>np.random.shuffle(x)\<close> on a Python list: for \<open>i\<close> from \<open>len(x) - 1\<close> down to \<open>1\<close>, draw
  \<open>j\<close> in \<open>[0, i]\<close> and swap \<^verbatim>\<open>x[i], x[j] = x[j], x[i]\<close>.
\<close>

fun shuffle_loop :: "('m, 's, 'e, 'g) externals \<Rightarrow> nat \<Rightarrow> 'a list \<Rightarrow> 'g \<Rightarrow> 'a list \<times> 'g" where
  "shuffle_loop w 0 xs g = (xs, g)"
| "shuffle_loop w (Suc i) xs g =
     (case np_draw w g of (k, g') \<Rightarrow>
        (let j = k mod (Suc i + 1)
         in shuffle_loop w i (xs[Suc i := xs ! j, j := xs ! Suc i]) g'))"

definition shuffle :: "('m, 's, 'e, 'g) externals \<Rightarrow> 'a list \<Rightarrow> 'g \<Rightarrow> 'a list \<times> 'g" where
  "shuffle w xs g = shuffle_loop w (length xs - 1) xs g"

section \<open>The batch builder\<close>

text \<open>
  One pass through the body of \<^verbatim>\<open>while True\<close> up to \<^verbatim>\<open>step += 1\<close> (lines 60 to 70), with the
  \<^verbatim>\<open>done\<close> flag of the environment step. Both ways of choosing the action raise on an empty
  \<^verbatim>\<open>q_value\<close>.
\<close>

definition play_step ::
  "('m, 's, 'e, 'g) externals \<Rightarrow> 'm \<Rightarrow> real \<Rightarrow> real \<Rightarrow> ('s, 'e, 'g) play_state
     \<Rightarrow> error + (('s, 'e, 'g) play_state \<times> bool)" where
  "play_step w run_model gamma tau ps =
     (let q_value = predict_on_batch w run_model (state ps)
      in (case np_random w (rng ps) of (u, g1) \<Rightarrow>
           (case (if u < tau then randint w (length q_value) g1
                  else (case argmax q_value of Inl e \<Rightarrow> Inl e | Inr a \<Rightarrow> Inr (a, g1))) of
              Inl e \<Rightarrow> Inl e
            | Inr (action, g2) \<Rightarrow>
                (case env_step w action (env ps) of ((next_state, reward, done), env') \<Rightarrow>
                   Inr (\<lparr>state = next_state, step = step ps + 1,
                         sum_reward = reward + gamma * sum_reward ps,
                         episode = episode ps @ [(state ps, q_value, action, reward)],
                         env = env', rng = g2\<rparr>, done)))))"

text \<open>
  The \<^verbatim>\<open>while True\<close> loop with its two exits (lines 58 to 81); \<open>None\<close> is a loop that never
  leaves. It returns its variables and \<^verbatim>\<open>last_q\<close>.
\<close>

partial_function (option) play_loop ::
  "('m, 's, 'e, 'g) externals \<Rightarrow> 'm \<Rightarrow> int option \<Rightarrow> real \<Rightarrow> real \<Rightarrow> ('s, 'e, 'g) play_state
     \<Rightarrow> (error + (('s, 'e, 'g) play_state \<times> real list option)) option" where
  "play_loop w run_model steps_limit gamma tau ps =
     (case play_step w run_model gamma tau ps of
        Inl e \<Rightarrow> Some (Inl e)
      | Inr (ps', done) \<Rightarrow>
          if done then Some (Inr (ps', None))
          else if steps_limit = Some (step ps')
          then Some (Inr (ps', Some (predict_on_batch w run_model (state ps'))))
          else play_loop w run_model steps_limit gamma tau ps')"

text \<open>Lines 54 to 57: the loop variables after the reset of the environment.\<close>

definition reset_state ::
  "('m, 's, 'e, 'g) externals \<Rightarrow> 'e \<Rightarrow> 'g \<Rightarrow> ('s, 'e, 'g) play_state" where
  "reset_state w e g =
     (case env_reset w e of (s, e') \<Rightarrow>
        \<lparr>state = s, step = 0, sum_reward = 0, episode = [], env = e', rng = g\<rparr>)"

text \<open>Lines 54 to 81: reset the environment and play one episode.\<close>

definition play_episode ::
  "('m, 's, 'e, 'g) externals \<Rightarrow> 'm \<Rightarrow> int option \<Rightarrow> real \<Rightarrow> real \<Rightarrow> 'e \<Rightarrow> 'g
     \<Rightarrow> (error + (('s, 'e, 'g) play_state \<times> real list option)) option" where
  "play_episode w run_model steps_limit gamma tau e g =
     play_loop w run_model steps_limit gamma tau (reset_state w e g)"

text \<open>Lines 84 to 87: the start value of \<^verbatim>\<open>R_sum\<close>.\<close>

definition init_R_sum :: "real list option \<Rightarrow> error + real" where
  "init_R_sum last_q = (case last_q of None \<Rightarrow> Inr 0 | Some lq \<Rightarrow> max_list lq)"

text \<open>
  Lines 89 to 101: the loop over \<^verbatim>\<open>reversed(episode)\<close>; its first argument of list type is the
  reversed episode. Writing \<^verbatim>\<open>target_q[action]\<close> outside the vector raises.
\<close>

fun unroll_loop ::
  "bool \<Rightarrow> real \<Rightarrow> 's transition list \<Rightarrow> real \<Rightarrow> real list option \<Rightarrow> 's sample list
     \<Rightarrow> error + 's sample list" where
  "unroll_loop n_steps gamma [] R_sum last_q smps = Inr smps"
| "unroll_loop n_steps gamma ((s, q_value, action, reward) # rest) R_sum last_q smps =
     (let R_sum' = R_sum * gamma + reward
      in (case (if n_steps then Inr R_sum'
                else (case last_q of
                        None \<Rightarrow> Inr reward
                      | Some lq \<Rightarrow>
                          (case max_list lq of
                             Inl e \<Rightarrow> Inl e
                           | Inr m \<Rightarrow> Inr (reward + gamma * m)))) of
            Inl e \<Rightarrow> Inl e
          | Inr R \<Rightarrow>
              if action < length q_value
              then unroll_loop n_steps gamma rest R_sum' (Some q_value)
                     (smps @ [(s, q_value[action := R])])
              else Inl IndexError))"

text \<open>Lines 84 to 101 for one episode.\<close>

definition episode_samples ::
  "bool \<Rightarrow> real \<Rightarrow> 's transition list \<Rightarrow> real list option \<Rightarrow> 's sample list
     \<Rightarrow> error + 's sample list" where
  "episode_samples n_steps gamma ep last_q smps =
     (case init_R_sum last_q of
        Inl e \<Rightarrow> Inl e
      | Inr R_sum \<Rightarrow> unroll_loop n_steps gamma (rev ep) R_sum last_q smps)"

text \<open>The body of \<^verbatim>\<open>for _ in range(num_episodes)\<close> (lines 54 to 101).\<close>

definition run_episode ::
  "('m, 's, 'e, 'g) externals \<Rightarrow> 'm \<Rightarrow> int option \<Rightarrow> bool \<Rightarrow> real \<Rightarrow> real
     \<Rightarrow> ('s, 'e, 'g) batch_state \<Rightarrow> (error + ('s, 'e, 'g) batch_state) option" where
  "run_episode w run_model steps_limit n_steps gamma tau bs =
     (case play_episode w run_model steps_limit gamma tau (b_env bs) (b_rng bs) of
        None \<Rightarrow> None
      | Some (Inl e) \<Rightarrow> Some (Inl e)
      | Some (Inr (ps, last_q)) \<Rightarrow>
          (case episode_samples n_steps gamma (episode ps) last_q (samples bs) of
             Inl e \<Rightarrow> Some (Inl e)
           | Inr smps \<Rightarrow>
               Some (Inr \<lparr>samples = smps, rewards = rewards bs @ [sum_reward ps],
                          b_env = env ps, b_rng = rng ps,
                          played = played bs @ [(episode ps, last_q)]\<rparr>)))"

text \<open>The loop over episodes (line 53), by the number of episodes still to play.\<close>

fun episodes_loop ::
  "('m, 's, 'e, 'g) externals \<Rightarrow> 'm \<Rightarrow> int option \<Rightarrow> bool \<Rightarrow> real \<Rightarrow> real \<Rightarrow> nat
     \<Rightarrow> ('s, 'e, 'g) batch_state \<Rightarrow> (error + ('s, 'e, 'g) batch_state) option" where
  "episodes_loop w run_model steps_limit n_steps gamma tau 0 bs = Some (Inr bs)"
| "episodes_loop w run_model steps_limit n_steps gamma tau (Suc k) bs =
     (case run_episode w run_model steps_limit n_steps gamma tau bs of
        None \<Rightarrow> None
      | Some (Inl e) \<Rightarrow> Some (Inl e)
      | Some (Inr bs') \<Rightarrow> episodes_loop w run_model steps_limit n_steps gamma tau k bs')"

text \<open>
  Lines 103 and 104: the arguments of the log call, evaluated from left to right; the
  maximum of an empty \<^verbatim>\<open>rewards\<close> raises.
\<close>

definition log_stats ::
  "int \<Rightarrow> 's sample list \<Rightarrow> real list \<Rightarrow> error + (int \<times> nat \<times> real option \<times> real)" where
  "log_stats iter_no smps rs =
     (let n = length smps; mean = np_mean rs
      in (case np_max rs of Inl e \<Rightarrow> Inl e | Inr mx \<Rightarrow> Inr (iter_no, n, mean, mx)))"

text \<open>
  \<^verbatim>\<open>create_batch\<close> (lines 41 to 107). \<^verbatim>\<open>range(num_episodes)\<close> is empty for a count below one.
  The two returned sequences are \<^verbatim>\<open>zip(*samples)\<close>; the list is never empty where the
  return statement is reached.
\<close>

definition create_batch ::
  "int \<Rightarrow> ('m, 's, 'e, 'g) externals \<Rightarrow> 'e \<Rightarrow> 'g \<Rightarrow> 'm \<Rightarrow> int \<Rightarrow> bool \<Rightarrow> int option
     \<Rightarrow> real \<Rightarrow> real \<Rightarrow> (error + ('s, 'e, 'g) batch_result) option" where
  "create_batch iter_no w e g run_model num_episodes n_steps steps_limit gamma tau =
     (case episodes_loop w run_model steps_limit n_steps gamma tau (nat num_episodes)
             \<lparr>samples = [], rewards = [], b_env = e, b_rng = g, played = []\<rparr> of
        None \<Rightarrow> None
      | Some (Inl err) \<Rightarrow> Some (Inl err)
      | Some (Inr bs) \<Rightarrow>
          (case log_stats iter_no (samples bs) (rewards bs) of
             Inl err \<Rightarrow> Some (Inl err)
           | Inr lg \<Rightarrow>
               (case shuffle w (samples bs) (b_rng bs) of (shuffled, g') \<Rightarrow>
                  Some (Inr \<lparr>batch = map fst shuffled, target_y = map snd shuffled,
                             logged = lg, r_env = b_env bs, r_rng = g',
                             r_played = played bs\<rparr>))))"

section \<open>The training loop\<close>

text \<open>
  \<^verbatim>\<open>start_loss / loss > 1.5\<close> on numpy floats: a division by zero does not raise, it gives
  \<open>inf\<close> for a positive numerator (greater than 1.5) and nan or \<open>-inf\<close> otherwise (not
  greater).
\<close>

definition ratio_exceeds :: "real \<Rightarrow> real \<Rightarrow> bool" where
  "ratio_exceeds sl l = (if l = 0 then 0 < sl else 3 / 2 < sl / l)"

text \<open>
  The loop \<^verbatim>\<open>for epoch in range(epoch_limit)\<close> (lines 151 to 159) over the epochs still to
  run. After the loop \<open>epoch\<close> is the last index the loop variable had.
\<close>

fun fit_epochs ::
  "('m, 's, 'e, 'g) externals \<Rightarrow> 's list \<Rightarrow> real list list \<Rightarrow> nat list \<Rightarrow> 'm fit_state
     \<Rightarrow> error + 'm fit_state" where
  "fit_epochs w b ty [] fs = Inr fs"
| "fit_epochs w b ty (ep # rest) fs =
     (case model_fit w (model fs) b ty of (history, model') \<Rightarrow>
        (case np_min history of
           Inl e \<Rightarrow> Inl e
         | Inr l \<Rightarrow>
             (case start_loss fs of
                None \<Rightarrow>
                  (case np_max history of
                     Inl e \<Rightarrow> Inl e
                   | Inr mx \<Rightarrow>
                       fit_epochs w b ty rest
                         \<lparr>model = model', start_loss = Some mx, loss = Some l,
                          epoch = Some ep\<rparr>)
              | Some sl \<Rightarrow>
                  if ratio_exceeds sl l
                  then Inr \<lparr>model = model', start_loss = Some sl, loss = Some l,
                            epoch = Some ep\<rparr>
                  else fit_epochs w b ty rest
                         \<lparr>model = model', start_loss = Some sl, loss = Some l,
                          epoch = Some ep\<rparr>)))"

definition epoch_limit :: nat where
  "epoch_limit = 10"

text \<open>Lines 148 to 159: the fitting of one iteration of the training loop.\<close>

definition fit_round ::
  "('m, 's, 'e, 'g) externals \<Rightarrow> 'm \<Rightarrow> 's list \<Rightarrow> real list list \<Rightarrow> error + 'm fit_state" where
  "fit_round w m b ty =
     fit_epochs w b ty [0 ..< epoch_limit]
       \<lparr>model = m, start_loss = None, loss = None, epoch = None\<rparr>"

text \<open>Lines 140 to 142: the step cap, absent when a monitor directory is given.\<close>

definition step_limit :: "bool \<Rightarrow> int option" where
  "step_limit monitor = (if monitor then None else Some 300)"

text \<open>
  The loop \<^verbatim>\<open>for iter in range(args.iters)\<close> (lines 144 to 159): twenty episodes with the
  default \<^verbatim>\<open>gamma\<close>, then the fitting.
\<close>

fun train_loop ::
  "('m, 's, 'e, 'g) externals \<Rightarrow> bool \<Rightarrow> real \<Rightarrow> bool \<Rightarrow> nat list \<Rightarrow> 'm \<times> 'e \<times> 'g
     \<Rightarrow> (error + 'm \<times> 'e \<times> 'g) option" where
  "train_loop w n_steps tau monitor [] st = Some (Inr st)"
| "train_loop w n_steps tau monitor (iter # rest) (m, e, g) =
     (case create_batch (int iter) w e g m 20 n_steps (step_limit monitor) 1 tau of
        None \<Rightarrow> None
      | Some (Inl err) \<Rightarrow> Some (Inl err)
      | Some (Inr res) \<Rightarrow>
          (case fit_round w m (batch res) (target_y res) of
             Inl err \<Rightarrow> Some (Inl err)
           | Inr fs \<Rightarrow> train_loop w n_steps tau monitor rest (model fs, r_env res, r_rng res)))"

section \<open>Notions used to state the properties\<close>

text \<open>The components of a transition.\<close>

fun t_state :: "'s transition \<Rightarrow> 's" where
  "t_state (s, q_value, action, reward) = s"

fun t_q_value :: "'s transition \<Rightarrow> real list" where
  "t_q_value (s, q_value, action, reward) = q_value"

fun t_action :: "'s transition \<Rightarrow> nat" where
  "t_action (s, q_value, action, reward) = action"

fun t_reward :: "'s transition \<Rightarrow> real" where
  "t_reward (s, q_value, action, reward) = reward"

text \<open>
  The loop body run \<open>k\<close> times with no exit taken, on the loop variables and the last
  \<^verbatim>\<open>done\<close> flag: what the environment, the model and the random source do in the first \<open>k\<close>
  steps of an episode.
\<close>

fun play_steps ::
  "('m, 's, 'e, 'g) externals \<Rightarrow> 'm \<Rightarrow> real \<Rightarrow> real \<Rightarrow> nat \<Rightarrow> ('s, 'e, 'g) play_state \<times> bool
     \<Rightarrow> error + (('s, 'e, 'g) play_state \<times> bool)" where
  "play_steps w run_model gamma tau 0 pd = Inr pd"
| "play_steps w run_model gamma tau (Suc k) pd =
     (case play_step w run_model gamma tau (fst pd) of
        Inl e \<Rightarrow> Inl e
      | Inr pd' \<Rightarrow> play_steps w run_model gamma tau k pd')"

text \<open>
  The model after the first \<open>k\<close> calls of \<^verbatim>\<open>model.fit\<close> on one batch, and the loss history
  that call number \<open>k\<close> (counted from 0, as \<^verbatim>\<open>epoch\<close> is) returns.
\<close>

fun fit_model_after ::
  "('m, 's, 'e, 'g) externals \<Rightarrow> 's list \<Rightarrow> real list list \<Rightarrow> nat \<Rightarrow> 'm \<Rightarrow> 'm" where
  "fit_model_after w b ty 0 m = m"
| "fit_model_after w b ty (Suc k) m = snd (model_fit w (fit_model_after w b ty k m) b ty)"

definition history_at ::
  "('m, 's, 'e, 'g) externals \<Rightarrow> 's list \<Rightarrow> real list list \<Rightarrow> 'm \<Rightarrow> nat \<Rightarrow> real list" where
  "history_at w b ty m k = fst (model_fit w (fit_model_after w b ty k m) b ty)"

section \<open>A stub environment for worked runs\<close>

text \<open>
  A deterministic stub in the style of the end-to-end scenario: the observation is always 0,
  every step pays reward 1, and the environment reports done at step number \<open>d\<close> after a
  reset (never for \<open>d = 0\<close>). The model predicts the vector \<open>q\<close> at every state; it counts
  its fit calls, and fit call number \<open>k\<close> returns the loss history \<open>h k\<close>. The random source
  always returns one half from \<^verbatim>\<open>random()\<close> and counts its raw draws.
\<close>

definition stub_world ::
  "nat \<Rightarrow> real list \<Rightarrow> (nat \<Rightarrow> real list) \<Rightarrow> (nat, nat, nat, nat) externals" where
  "stub_world d q h =
     \<lparr>predict_on_batch = (\<lambda>m s. q),
      model_fit = (\<lambda>m b ty. (h m, Suc m)),
      env_reset = (\<lambda>e. (0, 0)),
      env_step = (\<lambda>a e. ((0, 1, Suc e = d), Suc e)),
      np_random = (\<lambda>g. (1 / 2, g)),
      np_draw = (\<lambda>g. (g, Suc g))\<rparr>"

section \<open>Library functions\<close>

lemma foldl_max_fold: "foldl max (x::real) ys = fold max ys x"
  by (induction ys arbitrary: x) (simp_all add: max.commute)

lemma foldl_max_Max: "foldl max (x::real) ys = Max (set (x # ys))"
  by (simp only: foldl_max_fold Max.set_eq_fold)

lemma max_list_Max: "max_list xs = Inr m \<longleftrightarrow> xs \<noteq> [] \<and> m = Max (set xs)"
  by (cases xs) (auto simp: max_list_def foldl_max_Max simp del: foldl_Cons)

lemma argmax_scan_less: "best < i \<Longrightarrow> argmax_scan ys i best m < i + length ys"
proof (induction ys arbitrary: i best m)
  case Nil
  then show ?case by simp
next
  case (Cons y ys)
  from Cons.IH [of i "Suc i" y] Cons.IH [of best "Suc i" m] Cons.prems
  show ?case by auto
qed

lemma argmax_less: "argmax xs = Inr a \<Longrightarrow> a < length xs"
  using argmax_scan_less [of 0 1] by (cases xs) (auto simp: argmax_def)

section \<open>The backward scan\<close>

lemma unroll_loop_shape:
  "unroll_loop ns g trs R lq acc = Inr out \<Longrightarrow>
     \<exists>new. out = acc @ new \<and> length new = length trs \<and>
       (\<forall>i<length trs. fst (new ! i) = t_state (trs ! i) \<and>
          length (snd (new ! i)) = length (t_q_value (trs ! i)) \<and>
          t_action (trs ! i) < length (t_q_value (trs ! i)) \<and>
          (\<forall>j. j \<noteq> t_action (trs ! i) \<longrightarrow> snd (new ! i) ! j = t_q_value (trs ! i) ! j))"
proof (induction trs arbitrary: R lq acc)
  case Nil
  then show ?case by simp
next
  case (Cons t rest)
  obtain s q a r where t: "t = (s, q, a, r)" by (cases t)
  from Cons.prems obtain R' where a: "a < length q"
    and rec: "unroll_loop ns g rest (R * g + r) (Some q) (acc @ [(s, q[a := R'])]) = Inr out"
    unfolding t by (auto simp: Let_def split: sum.splits if_splits option.splits)
  from Cons.IH [OF rec] obtain new where new: "out = (acc @ [(s, q[a := R'])]) @ new"
    "length new = length rest"
    "\<forall>i<length rest. fst (new ! i) = t_state (rest ! i) \<and>
          length (snd (new ! i)) = length (t_q_value (rest ! i)) \<and>
          t_action (rest ! i) < length (t_q_value (rest ! i)) \<and>
          (\<forall>j. j \<noteq> t_action (rest ! i) \<longrightarrow> snd (new ! i) ! j = t_q_value (rest ! i) ! j)"
    by blast
  let ?new = "(s, q[a := R']) # new"
  have "out = acc @ ?new" using new(1) by simp
  moreover have "length ?new = length (t # rest)" using new(2) by simp
  moreover have "\<forall>i<length (t # rest). fst (?new ! i) = t_state ((t # rest) ! i) \<and>
          length (snd (?new ! i)) = length (t_q_value ((t # rest) ! i)) \<and>
          t_action ((t # rest) ! i) < length (t_q_value ((t # rest) ! i)) \<and>
          (\<forall>j. j \<noteq> t_action ((t # rest) ! i) \<longrightarrow> snd (?new ! i) ! j = t_q_value ((t # rest) ! i) ! j)"
  proof (intro allI impI)
    fix i assume "i < length (t # rest)"
    then show "fst (?new ! i) = t_state ((t # rest) ! i) \<and>
          length (snd (?new ! i)) = length (t_q_value ((t # rest) ! i)) \<and>
          t_action ((t # rest) ! i) < length (t_q_value ((t # rest) ! i)) \<and>
          (\<forall>j. j \<noteq> t_action ((t # rest) ! i) \<longrightarrow> snd (?new ! i) ! j = t_q_value ((t # rest) ! i) ! j)"
      using new(3) a by (cases i) (auto simp: t)
  qed
  ultimately show ?case by blast
qed

lemma unroll_loop_one_step:
  "unroll_loop False g trs R lq acc = Inr out \<Longrightarrow>
     \<forall>i<length trs. snd (out ! (length acc + i)) ! t_action (trs ! i) =
        t_reward (trs ! i) +
        (case (if i = 0 then lq else Some (t_q_value (trs ! (i - 1)))) of
           None \<Rightarrow> 0 | Some l \<Rightarrow> g * Max (set l))"
proof (induction trs arbitrary: R lq acc)
  case Nil
  then show ?case by simp
next
  case (Cons t rest)
  obtain s q a r where t: "t = (s, q, a, r)" by (cases t)
  define R' where "R' = r + (case lq of None \<Rightarrow> 0 | Some l \<Rightarrow> g * Max (set l))"
  from Cons.prems have a: "a < length q"
    and rec: "unroll_loop False g rest (R * g + r) (Some q) (acc @ [(s, q[a := R'])]) = Inr out"
    unfolding t R'_def by (auto simp: Let_def max_list_Max split: sum.splits if_splits option.splits)
  from unroll_loop_shape [OF rec] have hd: "out ! length acc = (s, q[a := R'])"
    by (auto simp: nth_append)
  show ?case
  proof (intro allI impI)
    fix i assume i: "i < length (t # rest)"
    show "snd (out ! (length acc + i)) ! t_action ((t # rest) ! i) =
        t_reward ((t # rest) ! i) +
        (case (if i = 0 then lq else Some (t_q_value ((t # rest) ! (i - 1)))) of
           None \<Rightarrow> 0 | Some l \<Rightarrow> g * Max (set l))"
    proof (cases i)
      case 0
      then show ?thesis using hd a by (simp add: t R'_def)
    next
      case (Suc i')
      with i have "i' < length rest" by simp
      with Cons.IH [OF rec] have "snd (out ! (length (acc @ [(s, q[a := R'])]) + i')) ! t_action (rest ! i') =
        t_reward (rest ! i') +
        (case (if i' = 0 then Some q else Some (t_q_value (rest ! (i' - 1)))) of
           None \<Rightarrow> 0 | Some l \<Rightarrow> g * Max (set l))" by blast
      then show ?thesis using Suc by (cases i') (auto simp: t)
    qed
  qed
qed

lemma unroll_loop_n_step:
  "unroll_loop True 1 trs R lq acc = Inr out \<Longrightarrow>
     \<forall>i<length trs. snd (out ! (length acc + i)) ! t_action (trs ! i) =
        R + sum_list (map t_reward (take (Suc i) trs))"
proof (induction trs arbitrary: R lq acc)
  case Nil
  then show ?case by simp
next
  case (Cons t rest)
  obtain s q a r where t: "t = (s, q, a, r)" by (cases t)
  from Cons.prems have a: "a < length q"
    and rec: "unroll_loop True 1 rest (R + r) (Some q) (acc @ [(s, q[a := R + r])]) = Inr out"
    unfolding t by (auto simp: Let_def split: sum.splits if_splits option.splits)
  from unroll_loop_shape [OF rec] have hd: "out ! length acc = (s, q[a := R + r])"
    by (auto simp: nth_append)
  show ?case
  proof (intro allI impI)
    fix i assume i: "i < length (t # rest)"
    show "snd (out ! (length acc + i)) ! t_action ((t # rest) ! i) =
        R + sum_list (map t_reward (take (Suc i) (t # rest)))"
    proof (cases i)
      case 0
      then show ?thesis using hd a by (simp add: t)
    next
      case (Suc i')
      with i have "i' < length rest" by simp
      with Cons.IH [OF rec] have "snd (out ! (length (acc @ [(s, q[a := R + r])]) + i')) ! t_action (rest ! i') =
        (R + r) + sum_list (map t_reward (take (Suc i') rest))" by blast
      then show ?thesis using Suc by (simp add: t)
    qed
  qed
qed

section \<open>The play loop\<close>

lemma play_step_Inr:
  assumes "play_step w m g tau ps = Inr (ps', d)"
  shows "step ps' = step ps + 1"
    and "\<exists>a r. episode ps' = episode ps @ [(state ps, predict_on_batch w m (state ps), a, r)]
           \<and> a < length (predict_on_batch w m (state ps))"
  using assms
  by (auto simp: play_step_def Let_def randint_def split: prod.splits sum.splits if_splits
      dest: argmax_less)

lemma play_steps_count:
  "play_steps w m g tau k pd = Inr (ps', d) \<Longrightarrow>
     step ps' = step (fst pd) + int k \<and> length (episode ps') = length (episode (fst pd)) + k"
proof (induction k arbitrary: pd)
  case 0
  then show ?case by auto
next
  case (Suc k)
  from Suc.prems obtain p1 d1 where s1: "play_step w m g tau (fst pd) = Inr (p1, d1)"
    and rest: "play_steps w m g tau k (p1, d1) = Inr (ps', d)"
    by (auto split: sum.splits)
  from Suc.IH [OF rest] play_step_Inr [OF s1] show ?case by auto
qed

lemma play_loop_Some:
  assumes ret: "play_loop w m cap g tau ps = Some r"
  shows "\<exists>k. (case play_steps w m g tau (Suc k) (ps, False) of
               Inl e \<Rightarrow> r = Inl e
             | Inr (ps', d) \<Rightarrow>
                 (d \<and> r = Inr (ps', None)) \<or>
                 (\<not> d \<and> cap = Some (step ps') \<and>
                    r = Inr (ps', Some (predict_on_batch w m (state ps')))))"
proof (rule play_loop.raw_induct [where P = "\<lambda>w m cap g tau ps r.
    \<exists>k. (case play_steps w m g tau (Suc k) (ps, False) of
               Inl e \<Rightarrow> r = Inl e
             | Inr (ps', d) \<Rightarrow>
                 (d \<and> r = Inr (ps', None)) \<or>
                 (\<not> d \<and> cap = Some (step ps') \<and>
                    r = Inr (ps', Some (predict_on_batch w m (state ps')))))", OF _ ret])
  fix f w m cap g tau ps r
  assume IH: "\<And>w m cap g tau ps r. f w m cap g tau ps = Some r \<Longrightarrow>
    \<exists>k. (case play_steps w m g tau (Suc k) (ps, False) of
               Inl e \<Rightarrow> r = Inl e
             | Inr (ps', d) \<Rightarrow>
                 (d \<and> r = Inr (ps', None)) \<or>
                 (\<not> d \<and> cap = Some (step ps') \<and>
                    r = Inr (ps', Some (predict_on_batch w m (state ps')))))"
  assume eq: "(case play_step w m g tau ps of
        Inl e \<Rightarrow> Some (Inl e)
      | Inr (ps', done) \<Rightarrow>
          if done then Some (Inr (ps', None))
          else if cap = Some (step ps')
          then Some (Inr (ps', Some (predict_on_batch w m (state ps'))))
          else f w m cap g tau ps') = Some r"
  show "\<exists>k. (case play_steps w m g tau (Suc k) (ps, False) of
               Inl e \<Rightarrow> r = Inl e
             | Inr (ps', d) \<Rightarrow>
                 (d \<and> r = Inr (ps', None)) \<or>
                 (\<not> d \<and> cap = Some (step ps') \<and>
                    r = Inr (ps', Some (predict_on_batch w m (state ps')))))"
  proof (cases "play_step w m g tau ps")
    case (Inl e)
    with eq have "r = Inl e" by simp
    with Inl have "case play_steps w m g tau (Suc 0) (ps, False) of
               Inl e \<Rightarrow> r = Inl e
             | Inr (ps', d) \<Rightarrow>
                 (d \<and> r = Inr (ps', None)) \<or>
                 (\<not> d \<and> cap = Some (step ps') \<and>
                    r = Inr (ps', Some (predict_on_batch w m (state ps'))))" by simp
    then show ?thesis by blast
  next
    case (Inr pd)
    obtain p1 d1 where pd: "pd = (p1, d1)" by (cases pd)
    show ?thesis
    proof (cases "d1 \<or> cap = Some (step p1)")
      case True
      with eq Inr pd have "(d1 \<and> r = Inr (p1, None)) \<or>
                 (\<not> d1 \<and> cap = Some (step p1) \<and>
                    r = Inr (p1, Some (predict_on_batch w m (state p1))))"
        by (auto split: if_splits)
      with Inr pd have "case play_steps w m g tau (Suc 0) (ps, False) of
               Inl e \<Rightarrow> r = Inl e
             | Inr (ps', d) \<Rightarrow>
                 (d \<and> r = Inr (ps', None)) \<or>
                 (\<not> d \<and> cap = Some (step ps') \<and>
                    r = Inr (ps', Some (predict_on_batch w m (state ps'))))" by simp
      then show ?thesis by blast
    next
      case False
      with eq Inr pd have "f w m cap g tau p1 = Some r" by simp
      from IH [OF this] obtain k where k: "case play_steps w m g tau (Suc k) (p1, False) of
               Inl e \<Rightarrow> r = Inl e
             | Inr (ps', d) \<Rightarrow>
                 (d \<and> r = Inr (ps', None)) \<or>
                 (\<not> d \<and> cap = Some (step ps') \<and>
                    r = Inr (ps', Some (predict_on_batch w m (state ps'))))" by blast
      have unf: "play_steps w m g tau (Suc (Suc k)) (ps, False)
          = play_steps w m g tau (Suc k) (p1, False)"
        using Inr pd False by simp
      have "case play_steps w m g tau (Suc (Suc k)) (ps, False) of
               Inl e \<Rightarrow> r = Inl e
             | Inr (ps', d) \<Rightarrow>
                 (d \<and> r = Inr (ps', None)) \<or>
                 (\<not> d \<and> cap = Some (step ps') \<and>
                    r = Inr (ps', Some (predict_on_batch w m (state ps'))))"
        unfolding unf by (rule k)
      then show ?thesis by (rule exI)
    qed
  qed
qed

lemma play_loop_cap_terminates:
  "step ps < n \<Longrightarrow>
     \<exists>r. play_loop w m (Some n) g tau ps = Some r \<and>
       (case r of Inl e \<Rightarrow> True | Inr (ps', lq) \<Rightarrow> step ps' \<le> n)"
proof (induction "nat (n - step ps)" arbitrary: ps)
  case 0
  then show ?case by simp
next
  case (Suc x)
  show ?case
  proof (cases "play_step w m g tau ps")
    case (Inl e)
    then show ?thesis by (simp add: play_loop.simps)
  next
    case (Inr pd)
    obtain p1 d1 where pd: "pd = (p1, d1)" by (cases pd)
    from play_step_Inr(1) [OF Inr [unfolded pd]] have st: "step p1 = step ps + 1" .
    show ?thesis
    proof (cases "d1 \<or> n = step p1")
      case True
      with Inr pd st Suc.prems show ?thesis
        by (subst play_loop.simps) auto
    next
      case False
      with st Suc.prems Suc.hyps(2) have "x = nat (n - step p1)" "step p1 < n" by auto
      from Suc.hyps(1) [OF this] obtain r where
        "play_loop w m (Some n) g tau p1 = Some r \<and>
           (case r of Inl e \<Rightarrow> True | Inr (ps', lq) \<Rightarrow> step ps' \<le> n)" by blast
      with Inr pd False show ?thesis
        by (subst play_loop.simps) auto
    qed
  qed
qed

lemma play_loop_Inr:
  assumes ret: "play_loop w m cap g tau ps0 = Some (Inr (ps, last_q))"
  shows "\<exists>k d. play_steps w m g tau (Suc k) (ps0, False) = Inr (ps, d) \<and>
           (d \<longrightarrow> last_q = None) \<and>
           (\<not> d \<longrightarrow> cap = Some (step ps) \<and> last_q = Some (predict_on_batch w m (state ps)))"
proof -
  let ?r = "Inr (ps, last_q) :: error + _"
  from play_loop_Some [OF ret] obtain k where
    k: "case play_steps w m g tau (Suc k) (ps0, False) of
               Inl e \<Rightarrow> ?r = Inl e
             | Inr (ps', d) \<Rightarrow>
                 (d \<and> ?r = Inr (ps', None)) \<or>
                 (\<not> d \<and> cap = Some (step ps') \<and>
                    ?r = Inr (ps', Some (predict_on_batch w m (state ps'))))"
    by blast
  show ?thesis
  proof (cases "play_steps w m g tau (Suc k) (ps0, False)")
    case (Inl e)
    with k show ?thesis by simp
  next
    case (Inr pd)
    obtain p1 d1 where pd: "pd = (p1, d1)" by (cases pd)
    from k Inr pd have "p1 = ps" and "d1 \<longrightarrow> last_q = None"
      and "\<not> d1 \<longrightarrow> cap = Some (step ps) \<and> last_q = Some (predict_on_batch w m (state ps))"
      by auto
    with Inr pd show ?thesis by blast
  qed
qed

lemma play_episode_Inr:
  assumes ret: "play_episode w m cap g tau e rg = Some (Inr (ps, last_q))"
  shows "\<exists>d. play_steps w m g tau (length (episode ps)) (reset_state w e rg, False) = Inr (ps, d) \<and>
           episode ps \<noteq> [] \<and> step ps = int (length (episode ps)) \<and>
           (d \<longrightarrow> last_q = None) \<and>
           (\<not> d \<longrightarrow> cap = Some (step ps) \<and> last_q = Some (predict_on_batch w m (state ps)))"
proof -
  have init: "step (reset_state w e rg) = 0" "episode (reset_state w e rg) = []"
    by (simp_all add: reset_state_def split: prod.splits)
  from ret have "play_loop w m cap g tau (reset_state w e rg) = Some (Inr (ps, last_q))"
    by (simp add: play_episode_def)
  from play_loop_Inr [OF this] obtain k d where
    k: "play_steps w m g tau (Suc k) (reset_state w e rg, False) = Inr (ps, d)"
    and d: "d \<longrightarrow> last_q = None"
      "\<not> d \<longrightarrow> cap = Some (step ps) \<and> last_q = Some (predict_on_batch w m (state ps))"
    by blast
  from play_steps_count [OF k] init have "step ps = int (Suc k)" "length (episode ps) = Suc k"
    by simp_all
  with k d show ?thesis by auto
qed

section \<open>Episodes, shuffling and the batch\<close>

lemma unroll_loop_acc:
  "unroll_loop ns g trs R lq (acc @ acc') =
     (case unroll_loop ns g trs R lq acc' of Inl e \<Rightarrow> Inl e | Inr out \<Rightarrow> Inr (acc @ out))"
proof (induction trs arbitrary: R lq acc')
  case Nil
  then show ?case by simp
next
  case (Cons t rest)
  obtain s q a r where t: "t = (s, q, a, r)" by (cases t)
  define sc where "sc = (if ns then Inr (R * g + r)
      else (case lq of None \<Rightarrow> Inr r
            | Some l \<Rightarrow> (case max_list l of Inl e \<Rightarrow> Inl e | Inr m \<Rightarrow> Inr (r + g * m))))"
  have unf: "unroll_loop ns g (t # rest) R lq xs =
      (case sc of Inl e \<Rightarrow> Inl e
       | Inr Rv \<Rightarrow> if a < length q
           then unroll_loop ns g rest (R * g + r) (Some q) (xs @ [(s, q[a := Rv])])
           else Inl IndexError)" for xs
    unfolding t sc_def by (simp add: Let_def)
  show ?case unfolding unf by (cases sc) (simp_all add: Cons.IH)
qed

lemma episode_samples_acc:
  "episode_samples ns g ep lq acc = Inr out \<Longrightarrow>
     \<exists>new. episode_samples ns g ep lq [] = Inr new \<and> out = acc @ new"
  using unroll_loop_acc [of ns g "rev ep" _ lq acc "[]"]
  by (auto simp: episode_samples_def split: sum.splits)

lemma episode_samples_length:
  "episode_samples ns g ep lq [] = Inr new \<Longrightarrow> length new = length ep"
  by (auto simp: episode_samples_def split: sum.splits dest!: unroll_loop_shape)

lemma run_episode_Inr:
  assumes "run_episode w m cap ns g tau bs = Some (Inr bs')"
  shows "\<exists>ps lq new. play_episode w m cap g tau (b_env bs) (b_rng bs) = Some (Inr (ps, lq)) \<and>
           episode_samples ns g (episode ps) lq [] = Inr new \<and>
           samples bs' = samples bs @ new \<and>
           rewards bs' = rewards bs @ [sum_reward ps] \<and>
           played bs' = played bs @ [(episode ps, lq)] \<and>
           b_env bs' = env ps \<and> b_rng bs' = rng ps"
proof (cases "play_episode w m cap g tau (b_env bs) (b_rng bs)")
  case None
  with assms show ?thesis by (simp add: run_episode_def)
next
  case (Some r)
  show ?thesis
  proof (cases r)
    case (Inl e)
    with Some assms show ?thesis by (simp add: run_episode_def)
  next
    case (Inr pl)
    obtain ps lq where pl: "pl = (ps, lq)" by (cases pl)
    show ?thesis
    proof (cases "episode_samples ns g (episode ps) lq (samples bs)")
      case (Inl e)
      with Some Inr pl assms show ?thesis by (simp add: run_episode_def)
    next
      case smps: (Inr smps)
      from episode_samples_acc [OF smps]
      obtain new where "episode_samples ns g (episode ps) lq [] = Inr new"
        "smps = samples bs @ new" by blast
      moreover from smps Some Inr pl assms have "bs' = \<lparr>samples = smps,
          rewards = rewards bs @ [sum_reward ps], b_env = env ps, b_rng = rng ps,
          played = played bs @ [(episode ps, lq)]\<rparr>" by (simp add: run_episode_def)
      ultimately show ?thesis using Some Inr pl by simp
    qed
  qed
qed

lemma episodes_loop_Inr:
  "episodes_loop w m cap ns g tau k bs = Some (Inr bs') \<Longrightarrow>
     \<exists>eps news. played bs' = played bs @ eps \<and> samples bs' = samples bs @ concat news \<and>
        length (rewards bs') = length (rewards bs) + k \<and> length eps = k \<and>
        list_all2 (\<lambda>el new. episode_samples ns g (fst el) (snd el) [] = Inr new) eps news"
proof (induction k arbitrary: bs)
  case 0
  then show ?case by simp
next
  case (Suc k)
  from Suc.prems obtain b1 where r1: "run_episode w m cap ns g tau bs = Some (Inr b1)"
    and rest: "episodes_loop w m cap ns g tau k b1 = Some (Inr bs')"
    by (auto split: option.splits sum.splits)
  from run_episode_Inr [OF r1] obtain ps lq new where
    pe: "play_episode w m cap g tau (b_env bs) (b_rng bs) = Some (Inr (ps, lq))" and
    new: "episode_samples ns g (episode ps) lq [] = Inr new"
      "samples b1 = samples bs @ new" "rewards b1 = rewards bs @ [sum_reward ps]"
      "played b1 = played bs @ [(episode ps, lq)]" "b_env b1 = env ps" "b_rng b1 = rng ps"
    by blast
  from Suc.IH [OF rest] obtain eps news where
    IH: "played bs' = played b1 @ eps" "samples bs' = samples b1 @ concat news"
      "length (rewards bs') = length (rewards b1) + k" "length eps = k"
      "list_all2 (\<lambda>el new. episode_samples ns g (fst el) (snd el) [] = Inr new) eps news"
    by blast
  have "played bs' = played bs @ ((episode ps, lq) # eps)" using new IH by simp
  moreover have "samples bs' = samples bs @ concat (new # news)" using new IH by simp
  moreover have "length (rewards bs') = length (rewards bs) + Suc k" using new IH by simp
  moreover have "length ((episode ps, lq) # eps) = Suc k" using IH by simp
  moreover have "list_all2 (\<lambda>el new. episode_samples ns g (fst el) (snd el) [] = Inr new)
      ((episode ps, lq) # eps) (new # news)" using new IH by simp
  ultimately show ?case by blast
qed

lemma shuffle_loop_mset:
  "i < length xs \<Longrightarrow> mset (fst (shuffle_loop w i xs g)) = mset xs"
proof (induction i arbitrary: xs g)
  case 0
  then show ?case by simp
next
  case (Suc i)
  obtain k g' where d: "np_draw w g = (k, g')" by (cases "np_draw w g")
  let ?j = "k mod (Suc i + 1)"
  let ?ys = "xs[Suc i := xs ! ?j, ?j := xs ! Suc i]"
  have "?j < Suc i + 1" by simp
  with Suc.prems have j: "?j < length xs" by linarith
  have "mset ?ys = mset xs" using Suc.prems j by (simp add: mset_swap)
  moreover have "i < length ?ys" using Suc.prems by simp
  ultimately show ?case using Suc.IH [of ?ys g'] d by (simp add: Let_def)
qed

lemma shuffle_mset: "mset (fst (shuffle w xs g)) = mset xs"
proof (cases xs)
  case Nil
  then show ?thesis by (simp add: shuffle_def)
next
  case (Cons x ys)
  then show ?thesis unfolding shuffle_def by (intro shuffle_loop_mset) simp
qed

lemma create_batch_Inr:
  assumes "create_batch iter_no w e g m num ns cap gamma tau = Some (Inr res)"
  shows "\<exists>bs. episodes_loop w m cap ns gamma tau (nat num)
             \<lparr>samples = [], rewards = [], b_env = e, b_rng = g, played = []\<rparr> = Some (Inr bs) \<and>
           mset (zip (batch res) (target_y res)) = mset (samples bs) \<and>
           length (batch res) = length (target_y res) \<and>
           r_played res = played bs \<and> rewards bs \<noteq> []"
proof -
  let ?init = "\<lparr>samples = [], rewards = [], b_env = e, b_rng = g, played = []\<rparr>"
  from assms obtain r where r: "episodes_loop w m cap ns gamma tau (nat num) ?init = Some r"
    by (cases "episodes_loop w m cap ns gamma tau (nat num) ?init")
       (simp_all add: create_batch_def)
  with assms obtain bs where loop: "episodes_loop w m cap ns gamma tau (nat num) ?init = Some (Inr bs)"
    by (cases r) (simp_all add: create_batch_def)
  from assms loop obtain lg where lg: "log_stats iter_no (samples bs) (rewards bs) = Inr lg"
    by (cases "log_stats iter_no (samples bs) (rewards bs)") (simp_all add: create_batch_def)
  from assms loop lg have
    res: "res = \<lparr>batch = map fst (fst (shuffle w (samples bs) (b_rng bs))),
                     target_y = map snd (fst (shuffle w (samples bs) (b_rng bs))),
                     logged = lg, r_env = b_env bs,
                     r_rng = snd (shuffle w (samples bs) (b_rng bs)), r_played = played bs\<rparr>"
    by (simp add: create_batch_def split: prod.splits)
  have "zip (batch res) (target_y res) = fst (shuffle w (samples bs) (b_rng bs))"
    unfolding res by (simp add: zip_map_fst_snd)
  then have "mset (zip (batch res) (target_y res)) = mset (samples bs)"
    by (simp add: shuffle_mset)
  moreover have "rewards bs \<noteq> []" using lg
    by (auto simp: log_stats_def np_max_def Let_def split: list.splits)
  ultimately show ?thesis using loop res by simp
qed

text \<open>The equations that evaluate a run on concrete collaborators.\<close>

lemmas run_simps = stub_world_def play_loop.simps play_step_def play_episode_def reset_state_def
  argmax_def Let_def max_list_def init_R_sum_def episode_samples_def

section \<open>Target scalars\<close>

text \<open>
  C1 (as amended). In n-step mode with \<open>gamma = 1\<close>, the target scalar written for the first
  transition of an episode (the last one the backward scan reaches) is the sum of all
  rewards of the episode plus the start value of the running return: nothing when the
  episode ended naturally (\<^verbatim>\<open>last_q\<close> is \<open>None\<close>), the greatest entry of the prediction
  at the cutoff state when the step cap ended it. For a naturally ended episode it is
  the plain sum of the rewards.
\<close>

theorem n_step_first_target:
  assumes "episode_samples True 1 ep last_q [] = Inr out" and "ep \<noteq> []"
  shows "snd (last out) ! t_action (hd ep) =
           sum_list (map t_reward ep) + (case last_q of None \<Rightarrow> 0 | Some lq \<Rightarrow> Max (set lq))"
proof -
  from assms(1) obtain R0 where R0: "init_R_sum last_q = Inr R0"
    and scan: "unroll_loop True 1 (rev ep) R0 last_q [] = Inr out"
    by (auto simp: episode_samples_def split: sum.splits)
  from R0 have R0_eq: "R0 = (case last_q of None \<Rightarrow> 0 | Some lq \<Rightarrow> Max (set lq))"
    by (auto simp: init_R_sum_def max_list_Max split: option.splits)
  let ?n = "length ep"
  from unroll_loop_shape [OF scan] have len: "length out = ?n" by auto
  from assms(2) have n: "?n - 1 < length (rev ep)" by simp
  with unroll_loop_n_step [OF scan]
  have "snd (out ! (length ([] :: ('a \<times> real list) list) + (?n - 1))) ! t_action (rev ep ! (?n - 1)) =
      R0 + sum_list (map t_reward (take (Suc (?n - 1)) (rev ep)))" by blast
  moreover have "out \<noteq> []" using len assms(2) by auto
  then have "out ! (?n - 1) = last out" using len by (simp add: last_conv_nth)
  moreover have "rev ep ! (?n - 1) = hd ep" using assms(2) by (simp add: rev_nth hd_conv_nth)
  moreover have "take (Suc (?n - 1)) (rev ep) = rev ep" using assms(2) by simp
  moreover have "sum_list (map t_reward (rev ep)) = sum_list (map t_reward ep)"
    by (simp add: rev_map [symmetric])
  ultimately show ?thesis using R0_eq by simp
qed

theorem n_step_first_target_witness:
  "episode_samples True 1 [(0::nat, [1, 0], 0, 1), (0, [1, 0], 0, 1)] None [] =
     Inr [(0, [1, 0]), (0, [2, 0])] \<and>
   snd (last [(0::nat, [1, 0]), (0, [2, 0::real])]) ! 0 = 1 + 1"
proof -
  have h: "episode_samples True 1 [(0::nat, [1, 0], 0, 1), (0, [1, 0], 0, 1)] None [] =
     Inr [(0, [1, 0]), (0, [2, 0])]"
    by (simp add: episode_samples_def init_R_sum_def)
  from n_step_first_target [OF h] show ?thesis using h by simp
qed

text \<open>
  The statement without the start value fails for an episode that the step cap ended: with
  a cap of two steps on the stub environment that never reports done, the rewards sum to 2
  and the first transition gets the target scalar 3.
\<close>

theorem n_step_first_target_counterexample:
  "run_episode (stub_world 0 [1, 0] (\<lambda>k. [1])) 0 (Some 2) True 1 (1 / 5)
       \<lparr>samples = [], rewards = [], b_env = 0, b_rng = 0, played = []\<rparr> =
     Some (Inr \<lparr>samples = [(0, [2, 0]), (0, [3, 0])], rewards = [2], b_env = 2, b_rng = 0,
                played = [([(0, [1, 0], 0, 1), (0, [1, 0], 0, 1)], Some [1, 0])]\<rparr>) \<and>
   snd (last [(0::nat, [2, 0]), (0, [3, 0::real])]) ! t_action (hd [(0::nat, [1, 0], 0, 1), (0, [1, 0], 0, 1)])
     \<noteq> sum_list (map t_reward [(0::nat, [1, 0], 0, 1), (0, [1, 0], 0, 1)])"
  by (simp add: stub_world_def play_loop.simps play_step_def play_episode_def reset_state_def
      argmax_def Let_def max_list_def init_R_sum_def episode_samples_def run_episode_def)

text \<open>
  C2. In 1-step mode, for any \<open>gamma\<close>: the target scalar of a transition that is not the last
  of its episode is its reward plus \<open>gamma\<close> times the greatest entry of the next
  transition's predicted vector; for the last transition of a naturally ended episode
  (\<^verbatim>\<open>last_q\<close> is \<open>None\<close>) it is the reward. The samples are appended backwards, so the
  sample of transition \<open>i\<close> is \<open>rev out ! i\<close> and the sample of the last one is \<open>hd out\<close>.
\<close>

theorem one_step_targets:
  assumes "episode_samples False gamma ep last_q [] = Inr out"
  shows "(\<forall>i. Suc i < length ep \<longrightarrow>
            snd (rev out ! i) ! t_action (ep ! i) =
              t_reward (ep ! i) + gamma * Max (set (t_q_value (ep ! Suc i)))) \<and>
         (ep \<noteq> [] \<and> last_q = None \<longrightarrow>
            snd (hd out) ! t_action (last ep) = t_reward (last ep))"
proof -
  from assms obtain R0 where scan: "unroll_loop False gamma (rev ep) R0 last_q [] = Inr out"
    by (auto simp: episode_samples_def split: sum.splits)
  let ?n = "length ep"
  from unroll_loop_shape [OF scan] have len: "length out = ?n" by auto
  note steps = unroll_loop_one_step [OF scan]
  have "snd (rev out ! i) ! t_action (ep ! i) =
      t_reward (ep ! i) + gamma * Max (set (t_q_value (ep ! Suc i)))" if i: "Suc i < ?n" for i
  proof -
    let ?j = "?n - 1 - i"
    from i have j: "?j < length (rev ep)" "?j \<noteq> 0" by simp_all
    from i have a: "rev ep ! ?j = ep ! i" by (simp add: rev_nth)
    from i have b: "rev ep ! (?j - 1) = ep ! Suc i" by (simp add: rev_nth Suc_diff_Suc)
    from i len have c: "rev out ! i = out ! ?j" by (simp add: rev_nth)
    from steps j(1) have "snd (out ! (length ([] :: ('a \<times> real list) list) + ?j)) ! t_action (rev ep ! ?j) =
        t_reward (rev ep ! ?j) +
        (case (if ?j = 0 then last_q else Some (t_q_value (rev ep ! (?j - 1)))) of
           None \<Rightarrow> 0 | Some l \<Rightarrow> gamma * Max (set l))" by blast
    with j(2) a b c show ?thesis by simp
  qed
  moreover have "snd (hd out) ! t_action (last ep) = t_reward (last ep)"
    if ne: "ep \<noteq> []" and lq: "last_q = None"
  proof -
    from ne have "0 < length (rev ep)" by simp
    with steps have "snd (out ! (length ([] :: ('a \<times> real list) list) + 0)) ! t_action (rev ep ! 0) =
        t_reward (rev ep ! 0) +
        (case (if (0::nat) = 0 then last_q else Some (t_q_value (rev ep ! (0 - 1)))) of
           None \<Rightarrow> 0 | Some l \<Rightarrow> gamma * Max (set l))" by blast
    moreover have "rev ep ! 0 = last ep" using ne by (simp add: rev_nth last_conv_nth)
    moreover have "out \<noteq> []" using len ne by auto
    then have "out ! 0 = hd out" by (simp add: hd_conv_nth)
    ultimately show ?thesis using lq by simp
  qed
  ultimately show ?thesis by blast
qed

theorem one_step_targets_witness:
  "episode_samples False (1 / 2) [(0::nat, [1, 0], 0, 1), (0, [4, 6], 1, 1)] None [] =
     Inr [(0, [4, 1]), (0, [4, 0])] \<and>
   snd (rev [(0::nat, [4, 1]), (0, [4, 0::real])] ! 0) ! 0 = 1 + 1 / 2 * 6 \<and>
   snd (hd [(0::nat, [4, 1]), (0, [4, 0::real])]) ! 1 = 1"
proof -
  have h: "episode_samples False (1 / 2) [(0::nat, [1, 0], 0, 1), (0, [4, 6], 1, 1)] None [] =
     Inr [(0, [4, 1]), (0, [4, 0])]"
    by (simp add: episode_samples_def init_R_sum_def max_list_def)
  from one_step_targets [OF h] have
    "(\<forall>i. Suc i < 2 \<longrightarrow> snd (rev [(0::nat, [4, 1]), (0, [4, 0::real])] ! i) !
        t_action ([(0::nat, [1, 0], 0, 1), (0, [4, 6], 1, 1)] ! i) =
        t_reward ([(0::nat, [1, 0], 0, 1), (0, [4, 6], 1, 1)] ! i) +
        1 / 2 * Max (set (t_q_value ([(0::nat, [1, 0], 0, 1), (0, [4, 6], 1, 1)] ! Suc i))))"
    and "snd (hd [(0::nat, [4, 1]), (0, [4, 0::real])]) ! 1 = 1" by simp_all
  from this(1) [rule_format, of 0] this(2) h show ?thesis by simp
qed

text \<open>
  C9. In 1-step mode, when the step cap ended the episode (the last environment step did
  not report done), the sample of the last recorded transition, the first one the backward
  scan appends, carries that transition's state and the target scalar reward plus \<open>gamma\<close>
  times the greatest entry of the prediction at the cutoff state \<open>state ps\<close>: the
  bootstrap term is present.
\<close>

theorem one_step_cap_bootstrap:
  assumes "play_episode w m cap gamma tau e rg = Some (Inr (ps, last_q))"
    and "play_steps w m gamma tau (length (episode ps)) (reset_state w e rg, False) = Inr (ps, False)"
    and "episode_samples False gamma (episode ps) last_q [] = Inr out"
  shows "fst (hd out) = t_state (last (episode ps)) \<and>
         snd (hd out) ! t_action (last (episode ps)) =
           t_reward (last (episode ps)) + gamma * Max (set (predict_on_batch w m (state ps)))"
proof -
  from play_episode_Inr [OF assms(1)] obtain d where
    d: "play_steps w m gamma tau (length (episode ps)) (reset_state w e rg, False) = Inr (ps, d)"
    and ne: "episode ps \<noteq> []"
    and nd: "\<not> d \<longrightarrow> cap = Some (step ps) \<and> last_q = Some (predict_on_batch w m (state ps))"
    by blast
  from d assms(2) have "\<not> d" by simp
  with nd have lq: "last_q = Some (predict_on_batch w m (state ps))" by simp
  from assms(3) obtain R0 where
    scan: "unroll_loop False gamma (rev (episode ps)) R0 last_q [] = Inr out"
    by (auto simp: episode_samples_def split: sum.splits)
  from ne have pos: "0 < length (rev (episode ps))" by simp
  from unroll_loop_shape [OF scan] obtain new where
    new: "out = [] @ new" "length new = length (rev (episode ps))"
      "\<forall>i<length (rev (episode ps)). fst (new ! i) = t_state (rev (episode ps) ! i) \<and>
          length (snd (new ! i)) = length (t_q_value (rev (episode ps) ! i)) \<and>
          t_action (rev (episode ps) ! i) < length (t_q_value (rev (episode ps) ! i)) \<and>
          (\<forall>j. j \<noteq> t_action (rev (episode ps) ! i) \<longrightarrow>
             snd (new ! i) ! j = t_q_value (rev (episode ps) ! i) ! j)"
    by blast
  from new(1,2) have len: "length out = length (episode ps)" by simp
  from new(3) pos have "fst (new ! 0) = t_state (rev (episode ps) ! 0)" by blast
  with new(1) have st: "fst (out ! 0) = t_state (rev (episode ps) ! 0)" by simp
  from unroll_loop_one_step [OF scan, rule_format, OF pos] lq
  have "snd (out ! 0) ! t_action (rev (episode ps) ! 0) =
        t_reward (rev (episode ps) ! 0) + gamma * Max (set (predict_on_batch w m (state ps)))"
    by simp
  moreover have "rev (episode ps) ! 0 = last (episode ps)"
    using ne by (simp add: rev_nth last_conv_nth)
  moreover have "out \<noteq> []" using len ne by auto
  then have "out ! 0 = hd out" by (simp add: hd_conv_nth)
  ultimately show ?thesis using lq st by simp
qed

theorem one_step_cap_bootstrap_witness:
  "play_episode (stub_world 0 [1, 0] (\<lambda>k. [1])) 0 (Some 2) (1 / 2) (1 / 5) 0 0 =
     Some (Inr (\<lparr>state = 0, step = 2, sum_reward = 3 / 2,
                 episode = [(0, [1, 0], 0, 1), (0, [1, 0], 0, 1)], env = 2, rng = 0\<rparr>,
                Some [1, 0])) \<and>
   play_steps (stub_world 0 [1, 0] (\<lambda>k. [1])) 0 (1 / 2) (1 / 5) 2
       (reset_state (stub_world 0 [1, 0] (\<lambda>k. [1])) 0 0, False) =
     Inr (\<lparr>state = 0, step = 2, sum_reward = 3 / 2,
            episode = [(0, [1, 0], 0, 1), (0, [1, 0], 0, 1)], env = 2, rng = 0\<rparr>, False) \<and>
   episode_samples False (1 / 2) [(0::nat, [1, 0], 0, 1), (0, [1, 0], 0, 1)] (Some [1, 0]) [] =
     Inr [(0, [3 / 2, 0]), (0, [3 / 2, 0])] \<and>
   snd (hd [(0::nat, [3 / 2, 0]), (0, [3 / 2, 0::real])]) ! 0 = 1 + 1 / 2 * 1"
proof -
  let ?w = "stub_world 0 [1, 0] (\<lambda>k. [1])"
  let ?ps = "\<lparr>state = 0::nat, step = 2, sum_reward = 3 / 2,
                 episode = [(0, [1, 0], 0, 1), (0, [1, 0], 0, 1)], env = 2::nat, rng = 0::nat\<rparr>"
  have h: "play_episode ?w 0 (Some 2) (1 / 2) (1 / 5) 0 0 = Some (Inr (?ps, Some [1, 0]))"
    by (simp add: run_simps)
  have st: "play_steps ?w 0 (1 / 2) (1 / 5) (length (episode ?ps)) (reset_state ?w 0 0, False) =
      Inr (?ps, False)"
    by (simp add: run_simps)
  have smp: "episode_samples False (1 / 2) (episode ?ps) (Some [1, 0]) [] =
      Inr [(0, [3 / 2, 0]), (0, [3 / 2, 0])]"
    by (simp add: run_simps)
  have len: "length (episode ?ps) = 2" by simp
  have st2: "play_steps ?w 0 (1 / 2) (1 / 5) 2 (reset_state ?w 0 0, False) = Inr (?ps, False)"
    using st by (simp only: len)
  have smp2: "episode_samples False (1 / 2) [(0::nat, [1, 0], 0, 1), (0, [1, 0], 0, 1)]
      (Some [1, 0]) [] = Inr [(0, [3 / 2, 0]), (0, [3 / 2, 0])]"
    using smp by simp
  from one_step_cap_bootstrap [OF h st smp]
  have c: "snd (hd [(0::nat, [3 / 2, 0]), (0, [3 / 2, 0::real])]) ! 0 = 1 + 1 / 2 * 1"
    by (simp add: stub_world_def)
  from h st2 smp2 c show ?thesis by (intro conjI)
qed

section \<open>How an episode ends\<close>

text \<open>
  C3. For every played episode, of \<open>length (episode ps)\<close> steps: if the last environment step
  reported done, the running return starts at 0; if not, the step cap equals the number of
  steps and the running return starts at the greatest entry of the model's prediction at
  the final state (Python's \<^verbatim>\<open>max\<close> raises on an empty prediction).
\<close>

theorem R_sum_initialisation:
  assumes "play_episode w m cap g tau e rg = Some (Inr (ps, last_q))"
  shows "\<exists>d. play_steps w m g tau (length (episode ps)) (reset_state w e rg, False) = Inr (ps, d) \<and>
           (d \<longrightarrow> init_R_sum last_q = Inr 0) \<and>
           (\<not> d \<longrightarrow> cap = Some (int (length (episode ps))) \<and>
              init_R_sum last_q =
                (if predict_on_batch w m (state ps) = [] then Inl ValueError
                 else Inr (Max (set (predict_on_batch w m (state ps))))))"
proof -
  from play_episode_Inr [OF assms] obtain d where
    d: "play_steps w m g tau (length (episode ps)) (reset_state w e rg, False) = Inr (ps, d)"
      "step ps = int (length (episode ps))"
      "d \<longrightarrow> last_q = None"
      "\<not> d \<longrightarrow> cap = Some (step ps) \<and> last_q = Some (predict_on_batch w m (state ps))"
    by blast
  have "max_list q = (if q = [] then Inl ValueError else Inr (Max (set q)))" for q
    using max_list_Max [of q "Max (set q)"] by (auto simp: max_list_def)
  with d show ?thesis by (auto simp: init_R_sum_def)
qed

theorem R_sum_initialisation_witness:
  "play_episode (stub_world 0 [1, 0] (\<lambda>k. [1])) 0 (Some 2) 1 (1 / 5) 0 0 =
     Some (Inr (\<lparr>state = 0, step = 2, sum_reward = 2,
                 episode = [(0, [1, 0], 0, 1), (0, [1, 0], 0, 1)], env = 2, rng = 0\<rparr>,
                Some [1, 0])) \<and>
   play_steps (stub_world 0 [1, 0] (\<lambda>k. [1])) 0 1 (1 / 5) 2
       (reset_state (stub_world 0 [1, 0] (\<lambda>k. [1])) 0 0, False) =
     Inr (\<lparr>state = 0, step = 2, sum_reward = 2,
            episode = [(0, [1, 0], 0, 1), (0, [1, 0], 0, 1)], env = 2, rng = 0\<rparr>, False) \<and>
   init_R_sum (Some [1, 0]) = Inr 1"
proof -
  let ?w = "stub_world 0 [1, 0] (\<lambda>k. [1])"
  let ?ps = "\<lparr>state = 0::nat, step = 2, sum_reward = 2,
                 episode = [(0, [1, 0], 0, 1), (0, [1, 0], 0, 1)], env = 2::nat, rng = 0::nat\<rparr>"
  have h: "play_episode ?w 0 (Some 2) 1 (1 / 5) 0 0 = Some (Inr (?ps, Some [1, 0]))"
    by (simp add: run_simps)
  have st: "play_steps ?w 0 1 (1 / 5) 2 (reset_state ?w 0 0, False) = Inr (?ps, False)"
    by (simp add: run_simps numeral_2_eq_2)
  from R_sum_initialisation [OF h] obtain d where
    d: "play_steps ?w 0 1 (1 / 5) (length (episode ?ps)) (reset_state ?w 0 0, False) = Inr (?ps, d)"
    and init: "\<not> d \<longrightarrow> Some 2 = Some (int (length (episode ?ps))) \<and>
      init_R_sum (Some [1, 0]) =
        (if predict_on_batch ?w 0 (state ?ps) = [] then Inl ValueError
         else Inr (Max (set (predict_on_batch ?w 0 (state ?ps)))))"
    by blast
  have len: "length (episode ?ps) = 2" by simp
  from d have "play_steps ?w 0 1 (1 / 5) 2 (reset_state ?w 0 0, False) = Inr (?ps, d)"
    by (simp only: len)
  with st have "\<not> d" by simp
  with init have c: "init_R_sum (Some [1, 0]) = Inr 1" by (simp add: stub_world_def)
  from h st c show ?thesis by (intro conjI)
qed

lemma play_episode_cap_terminates:
  assumes "0 < n"
  shows "\<exists>r. play_episode w m (Some n) g tau e rg = Some r \<and>
           (case r of Inl err \<Rightarrow> True | Inr (ps, lq) \<Rightarrow> int (length (episode ps)) \<le> n)"
proof -
  have "step (reset_state w e rg) = 0"
    by (simp add: reset_state_def split: prod.splits)
  with assms have "step (reset_state w e rg) < n" by simp
  from play_loop_cap_terminates [OF this, where w = w and m = m and g = g and tau = tau] obtain r where
    r: "play_loop w m (Some n) g tau (reset_state w e rg) = Some r"
      "case r of Inl e \<Rightarrow> True | Inr (ps', lq) \<Rightarrow> step ps' \<le> n" by blast
  show ?thesis
  proof (cases r)
    case (Inl err)
    with r show ?thesis by (simp add: play_episode_def)
  next
    case (Inr pl)
    obtain ps lq where pl: "pl = (ps, lq)" by (cases pl)
    from r(1) Inr pl have "play_episode w m (Some n) g tau e rg = Some (Inr (ps, lq))"
      by (simp add: play_episode_def)
    from play_episode_Inr [OF this] have "step ps = int (length (episode ps))" by blast
    with r Inr pl show ?thesis by (simp add: play_episode_def)
  qed
qed

lemma stub_never_done:
  "\<exists>ps'. play_steps (stub_world 0 [1, 0] h) m g (1 / 5) k (ps, d) = Inr (ps', d \<and> k = 0)"
proof (induction k arbitrary: ps d)
  case 0
  then show ?case by simp
next
  case (Suc k)
  have "\<exists>p1. play_step (stub_world 0 [1, 0] h) m g (1 / 5) ps = Inr (p1, False)"
    by (simp add: play_step_def stub_world_def argmax_def)
  then obtain p1 where p1: "play_step (stub_world 0 [1, 0] h) m g (1 / 5) ps = Inr (p1, False)"
    by blast
  from Suc.IH [of p1 False] p1 show ?case by simp
qed

text \<open>
  C10. With a positive step cap \<open>n\<close> the play loop of an episode returns, whatever the
  environment reports, after at most \<open>n\<close> environment steps (one recorded transition per
  step; a raised error ends it earlier). With no cap, a loop that returns an episode has
  seen the environment report done at its last step, and where the environment never
  reports done (and nothing raises) the loop never returns.
\<close>

theorem play_loop_termination:
  "(0 < n \<longrightarrow>
      (\<exists>r. play_episode w m (Some n) g tau e rg = Some r \<and>
         (case r of Inl err \<Rightarrow> True | Inr (ps, lq) \<Rightarrow> int (length (episode ps)) \<le> n))) \<and>
   (\<forall>ps lq. play_episode w m None g tau e rg = Some (Inr (ps, lq)) \<longrightarrow>
      play_steps w m g tau (length (episode ps)) (reset_state w e rg, False) = Inr (ps, True)) \<and>
   ((\<forall>k. \<exists>ps. play_steps w m g tau k (reset_state w e rg, False) = Inr (ps, False)) \<longrightarrow>
      play_episode w m None g tau e rg = None)"
proof (intro conjI impI allI)
  assume "0 < n"
  then show "\<exists>r. play_episode w m (Some n) g tau e rg = Some r \<and>
         (case r of Inl err \<Rightarrow> True | Inr (ps, lq) \<Rightarrow> int (length (episode ps)) \<le> n)"
    by (rule play_episode_cap_terminates)
next
  fix ps lq
  assume "play_episode w m None g tau e rg = Some (Inr (ps, lq))"
  from play_episode_Inr [OF this]
  show "play_steps w m g tau (length (episode ps)) (reset_state w e rg, False) = Inr (ps, True)"
    by auto
next
  assume never: "\<forall>k. \<exists>ps. play_steps w m g tau k (reset_state w e rg, False) = Inr (ps, False)"
  show "play_episode w m None g tau e rg = None"
  proof (rule ccontr)
    assume "play_episode w m None g tau e rg \<noteq> None"
    then obtain r where r: "play_loop w m None g tau (reset_state w e rg) = Some r"
      by (auto simp: play_episode_def)
    from play_loop_Some [OF r] obtain k where
      k: "case play_steps w m g tau (Suc k) (reset_state w e rg, False) of
               Inl e \<Rightarrow> r = Inl e
             | Inr (ps', d) \<Rightarrow>
                 (d \<and> r = Inr (ps', None)) \<or>
                 (\<not> d \<and> None = Some (step ps') \<and>
                    r = Inr (ps', Some (predict_on_batch w m (state ps'))))" by blast
    from never obtain p where "play_steps w m g tau (Suc k) (reset_state w e rg, False) = Inr (p, False)"
      by blast
    with k show False by simp
  qed
qed

theorem play_loop_termination_witness:
  "(0::int) < 2 \<and>
   (\<exists>r. play_episode (stub_world 0 [1, 0] (\<lambda>k. [1])) 0 (Some 2) 1 (1 / 5) 0 0 = Some r \<and>
      (case r of Inl err \<Rightarrow> True | Inr (ps, lq) \<Rightarrow> int (length (episode ps)) \<le> 2)) \<and>
   play_episode (stub_world 0 [1, 0] (\<lambda>k. [1])) 0 None 1 (1 / 5) 0 0 = None \<and>
   play_episode (stub_world 3 [1, 0] (\<lambda>k. [1])) 0 None 1 (1 / 5) 0 0 =
     Some (Inr (\<lparr>state = 0, step = 3, sum_reward = 3,
                 episode = [(0, [1, 0], 0, 1), (0, [1, 0], 0, 1), (0, [1, 0], 0, 1)],
                 env = 3, rng = 0\<rparr>, None)) \<and>
   play_steps (stub_world 3 [1, 0] (\<lambda>k. [1])) 0 1 (1 / 5) 3
       (reset_state (stub_world 3 [1, 0] (\<lambda>k. [1])) 0 0, False) =
     Inr (\<lparr>state = 0, step = 3, sum_reward = 3,
            episode = [(0, [1, 0], 0, 1), (0, [1, 0], 0, 1), (0, [1, 0], 0, 1)],
            env = 3, rng = 0\<rparr>, True)"
proof -
  let ?w0 = "stub_world 0 [1, 0] (\<lambda>k. [1])"
  let ?w3 = "stub_world 3 [1, 0] (\<lambda>k. [1])"
  let ?ps = "\<lparr>state = 0::nat, step = 3, sum_reward = 3,
                 episode = [(0, [1, 0], 0, 1), (0, [1, 0], 0, 1), (0, [1, 0], 0, 1)],
                 env = 3::nat, rng = 0::nat\<rparr>"
  note t0 = play_loop_termination [of 2 ?w0 0 1 "1 / 5" 0 0]
  note t3 = play_loop_termination [of 2 ?w3 0 1 "1 / 5" 0 0]
  have never: "\<forall>k. \<exists>ps. play_steps ?w0 0 1 (1 / 5) k (reset_state ?w0 0 0, False) = Inr (ps, False)"
    using stub_never_done [of "\<lambda>k. [1]" 0 1 _ "reset_state ?w0 0 0" False] by simp
  have h3: "play_episode ?w3 0 None 1 (1 / 5) 0 0 = Some (Inr (?ps, None))"
    by (simp add: run_simps)
  from t0 have a: "\<exists>r. play_episode ?w0 0 (Some 2) 1 (1 / 5) 0 0 = Some r \<and>
      (case r of Inl err \<Rightarrow> True | Inr (ps, lq) \<Rightarrow> int (length (episode ps)) \<le> 2)" by simp
  from t0 never have b: "play_episode ?w0 0 None 1 (1 / 5) 0 0 = None" by blast
  from t3 h3 have c: "play_steps ?w3 0 1 (1 / 5) (length (episode ?ps)) (reset_state ?w3 0 0, False) =
      Inr (?ps, True)" by blast
  have len: "length (episode ?ps) = 3" by simp
  have c3: "play_steps ?w3 0 1 (1 / 5) 3 (reset_state ?w3 0 0, False) = Inr (?ps, True)"
    using c by (simp only: len)
  have "(0::int) < 2" by simp
  from this a b h3 c3 show ?thesis by (intro conjI)
qed

section \<open>The returned batch\<close>

lemma episode_samples_shape:
  assumes "episode_samples ns g ep lq [] = Inr new"
  shows "\<forall>smp\<in>set new. \<exists>tr\<in>set ep. fst smp = t_state tr \<and>
           length (snd smp) = length (t_q_value tr) \<and>
           t_action tr < length (t_q_value tr) \<and>
           (\<forall>j. j \<noteq> t_action tr \<longrightarrow> snd smp ! j = t_q_value tr ! j)"
proof
  fix smp assume smp: "smp \<in> set new"
  from assms obtain R0 where scan: "unroll_loop ns g (rev ep) R0 lq [] = Inr new"
    by (auto simp: episode_samples_def split: sum.splits)
  from unroll_loop_shape [OF scan] obtain new' where
    new: "new = [] @ new'" "length new' = length (rev ep)"
      "\<forall>i<length (rev ep). fst (new' ! i) = t_state (rev ep ! i) \<and>
          length (snd (new' ! i)) = length (t_q_value (rev ep ! i)) \<and>
          t_action (rev ep ! i) < length (t_q_value (rev ep ! i)) \<and>
          (\<forall>j. j \<noteq> t_action (rev ep ! i) \<longrightarrow> snd (new' ! i) ! j = t_q_value (rev ep ! i) ! j)"
    by blast
  from smp new(1) obtain i where i: "i < length new'" "new' ! i = smp"
    by (auto simp: in_set_conv_nth)
  with new(2) have "rev ep ! i \<in> set ep"
    by (metis nth_mem set_rev)
  moreover from new(3) i new(2) have "fst smp = t_state (rev ep ! i) \<and>
          length (snd smp) = length (t_q_value (rev ep ! i)) \<and>
          t_action (rev ep ! i) < length (t_q_value (rev ep ! i)) \<and>
          (\<forall>j. j \<noteq> t_action (rev ep ! i) \<longrightarrow> snd smp ! j = t_q_value (rev ep ! i) ! j)"
    by auto
  ultimately show "\<exists>tr\<in>set ep. fst smp = t_state tr \<and>
           length (snd smp) = length (t_q_value tr) \<and>
           t_action tr < length (t_q_value tr) \<and>
           (\<forall>j. j \<noteq> t_action tr \<longrightarrow> snd smp ! j = t_q_value tr ! j)"
    by (rule bexI [rotated])
qed

lemma episodes_samples_length:
  "list_all2 (\<lambda>el new. episode_samples ns g (fst el) (snd el) [] = Inr new) eps news \<Longrightarrow>
     length (concat news) = sum_list (map (\<lambda>el. length (fst el)) eps)"
  by (induction eps news rule: list_all2_induct) (simp_all add: episode_samples_length)

lemma episodes_samples_origin:
  assumes "list_all2 (\<lambda>el new. episode_samples ns g (fst el) (snd el) [] = Inr new) eps news"
    and "smp \<in> set (concat news)"
  shows "\<exists>el\<in>set eps. \<exists>new. episode_samples ns g (fst el) (snd el) [] = Inr new \<and> smp \<in> set new"
  using assms by (induction eps news rule: list_all2_induct) auto

lemma create_batch_episodes:
  assumes "create_batch iter_no w e g m num ns cap gamma tau = Some (Inr res)"
  shows "\<exists>smps news. mset (zip (batch res) (target_y res)) = mset smps \<and>
           length (batch res) = length (target_y res) \<and>
           smps = concat news \<and> length (r_played res) = nat num \<and>
           list_all2 (\<lambda>el new. episode_samples ns gamma (fst el) (snd el) [] = Inr new)
             (r_played res) news"
proof -
  from create_batch_Inr [OF assms] obtain bs where
    bs: "episodes_loop w m cap ns gamma tau (nat num)
             \<lparr>samples = [], rewards = [], b_env = e, b_rng = g, played = []\<rparr> = Some (Inr bs)"
      "mset (zip (batch res) (target_y res)) = mset (samples bs)"
      "length (batch res) = length (target_y res)" "r_played res = played bs"
    by blast
  from episodes_loop_Inr [OF bs(1)] obtain eps news where
    "played bs = eps" "samples bs = concat news" "length eps = nat num"
    "list_all2 (\<lambda>el new. episode_samples ns gamma (fst el) (snd el) [] = Inr new) eps news"
    by auto
  with bs show ?thesis by auto
qed

text \<open>The equations that evaluate a call of the batch builder.\<close>

lemmas batch_simps = run_simps run_episode_def create_batch_def log_stats_def np_max_def
  np_mean_def shuffle_def mod_Suc numeral_2_eq_2

text \<open>
  C6. The number of training samples a call of the batch builder returns (the length of
  either returned sequence) is the sum of the lengths of the episodes it played, and it
  played \<^verbatim>\<open>num_episodes\<close> of them.
\<close>

theorem batch_sample_count:
  assumes "create_batch iter_no w e g m num_episodes n_steps steps_limit gamma tau = Some (Inr res)"
  shows "length (batch res) = sum_list (map (\<lambda>el. length (fst el)) (r_played res)) \<and>
         length (target_y res) = length (batch res) \<and>
         length (r_played res) = nat num_episodes"
proof -
  from create_batch_episodes [OF assms] obtain news where
    ms: "mset (zip (batch res) (target_y res)) = mset (concat news)"
    and len: "length (batch res) = length (target_y res)"
    and n: "length (r_played res) = nat num_episodes"
    and all: "list_all2 (\<lambda>el new. episode_samples n_steps gamma (fst el) (snd el) [] = Inr new)
             (r_played res) news"
    by blast
  from ms have "length (zip (batch res) (target_y res)) = length (concat news)"
    by (rule mset_eq_length)
  with len have "length (batch res) = length (concat news)" by simp
  with episodes_samples_length [OF all] len n show ?thesis by simp
qed

theorem batch_sample_count_witness:
  "create_batch 7 (stub_world 3 [1, 0] (\<lambda>k. [1])) 0 0 0 2 False None 1 (1 / 5) =
     Some (Inr \<lparr>batch = [0, 0, 0, 0, 0, 0],
                target_y = [[2, 0], [1, 0], [2, 0], [2, 0], [2, 0], [1, 0]],
                logged = (7, 6, Some 3, 3), r_env = 3, r_rng = 5,
                r_played =
                  [([(0, [1, 0], 0, 1), (0, [1, 0], 0, 1), (0, [1, 0], 0, 1)], None),
                   ([(0, [1, 0], 0, 1), (0, [1, 0], 0, 1), (0, [1, 0], 0, 1)], None)]\<rparr>) \<and>
   length [0::nat, 0, 0, 0, 0, 0] = 3 + 3"
proof -
  let ?res = "\<lparr>batch = [0::nat, 0, 0, 0, 0, 0],
                target_y = [[2, 0], [1, 0], [2, 0], [2, 0], [2, 0], [1, 0]],
                logged = (7, 6, Some 3, 3), r_env = 3::nat, r_rng = 5::nat,
                r_played =
                  [([(0::nat, [1, 0], 0, 1), (0, [1, 0], 0, 1), (0, [1, 0], 0, 1)], None),
                   ([(0, [1, 0], 0, 1), (0, [1, 0], 0, 1), (0, [1, 0], 0, 1)], None)]\<rparr>"
  have h: "create_batch 7 (stub_world 3 [1, 0] (\<lambda>k. [1])) 0 0 0 2 False None 1 (1 / 5) =
      Some (Inr ?res)"
    by (simp add: batch_simps)
  from batch_sample_count [OF h] have c: "length [0::nat, 0, 0, 0, 0, 0] = 3 + 3" by simp
  from h c show ?thesis by (intro conjI)
qed

text \<open>
  C7. The shuffle before the return is a permutation of the sample list: zipped back
  together, the two returned sequences hold the same multiset of (state, target vector)
  pairs as \<^verbatim>\<open>samples\<close> did after the last episode, so every state is still paired with its
  own target vector and only the order may differ.
\<close>

theorem shuffle_is_permutation:
  assumes "create_batch iter_no w e g m num_episodes n_steps steps_limit gamma tau = Some (Inr res)"
  shows "\<exists>bs. episodes_loop w m steps_limit n_steps gamma tau (nat num_episodes)
             \<lparr>samples = [], rewards = [], b_env = e, b_rng = g, played = []\<rparr> = Some (Inr bs) \<and>
           mset (zip (batch res) (target_y res)) = mset (samples bs) \<and>
           length (batch res) = length (target_y res)"
  using create_batch_Inr [OF assms] by blast

theorem shuffle_is_permutation_witness:
  "create_batch 7 (stub_world 0 [1, 0] (\<lambda>k. [1])) 0 0 0 2 True (Some 2) 1 (1 / 5) =
     Some (Inr \<lparr>batch = [0, 0, 0, 0], target_y = [[2, 0], [3, 0], [3, 0], [2, 0]],
                logged = (7, 4, Some 2, 2), r_env = 2, r_rng = 3,
                r_played =
                  [([(0, [1, 0], 0, 1), (0, [1, 0], 0, 1)], Some [1, 0]),
                   ([(0, [1, 0], 0, 1), (0, [1, 0], 0, 1)], Some [1, 0])]\<rparr>) \<and>
   (\<exists>bs. episodes_loop (stub_world 0 [1, 0] (\<lambda>k. [1])) 0 (Some 2) True 1 (1 / 5) (nat 2)
           \<lparr>samples = [], rewards = [], b_env = 0, b_rng = 0, played = []\<rparr> = Some (Inr bs) \<and>
         mset (zip [0::nat, 0, 0, 0] [[2, 0], [3, 0], [3, 0], [2, 0::real]]) = mset (samples bs))"
proof -
  let ?res = "\<lparr>batch = [0::nat, 0, 0, 0], target_y = [[2, 0], [3, 0], [3, 0], [2, 0]],
                logged = (7, 4, Some 2, 2), r_env = 2::nat, r_rng = 3::nat,
                r_played =
                  [([(0::nat, [1, 0], 0, 1), (0, [1, 0], 0, 1)], Some [1, 0]),
                   ([(0, [1, 0], 0, 1), (0, [1, 0], 0, 1)], Some [1, 0])]\<rparr>"
  have h: "create_batch 7 (stub_world 0 [1, 0] (\<lambda>k. [1])) 0 0 0 2 True (Some 2) 1 (1 / 5) =
      Some (Inr ?res)"
    by (simp add: batch_simps)
  from shuffle_is_permutation [OF h]
  have c: "\<exists>bs. episodes_loop (stub_world 0 [1, 0] (\<lambda>k. [1])) 0 (Some 2) True 1 (1 / 5) (nat 2)
           \<lparr>samples = [], rewards = [], b_env = 0, b_rng = 0, played = []\<rparr> = Some (Inr bs) \<and>
         mset (zip [0::nat, 0, 0, 0] [[2, 0], [3, 0], [3, 0], [2, 0::real]]) = mset (samples bs)"
    by (simp only: batch_result.simps) blast
  from h c show ?thesis by (intro conjI)
qed

text \<open>
  C4 (as amended). Every training sample the batch builder returns was made from a
  transition of a played episode: it carries that transition's state, its target vector
  has the length of the transition's predicted vector, the chosen action is an index of
  that vector, and at every other index the two vectors agree. So at most one coordinate,
  the chosen action's, differs between prediction and target.
\<close>

theorem target_vector_shape:
  assumes "create_batch iter_no w e g m num_episodes n_steps steps_limit gamma tau = Some (Inr res)"
  shows "length (target_y res) = length (batch res) \<and>
         (\<forall>k<length (batch res). \<exists>el\<in>set (r_played res). \<exists>tr\<in>set (fst el).
            batch res ! k = t_state tr \<and>
            length (target_y res ! k) = length (t_q_value tr) \<and>
            t_action tr < length (t_q_value tr) \<and>
            (\<forall>j. j \<noteq> t_action tr \<longrightarrow> target_y res ! k ! j = t_q_value tr ! j))"
proof (intro conjI allI impI)
  from create_batch_episodes [OF assms] obtain news where
    ms: "mset (zip (batch res) (target_y res)) = mset (concat news)"
    and len: "length (batch res) = length (target_y res)"
    and all: "list_all2 (\<lambda>el new. episode_samples n_steps gamma (fst el) (snd el) [] = Inr new)
             (r_played res) news"
    by blast
  from len show "length (target_y res) = length (batch res)" by simp
  fix k assume k: "k < length (batch res)"
  with len have "(batch res ! k, target_y res ! k) \<in> set (zip (batch res) (target_y res))"
    by (auto simp: set_zip)
  with ms have "(batch res ! k, target_y res ! k) \<in> set (concat news)"
    by (metis set_mset_mset)
  from episodes_samples_origin [OF all this] obtain el new where
    el: "el \<in> set (r_played res)"
    and new: "episode_samples n_steps gamma (fst el) (snd el) [] = Inr new"
    and mem: "(batch res ! k, target_y res ! k) \<in> set new"
    by blast
  from episode_samples_shape [OF new] mem
  have "\<exists>tr\<in>set (fst el). fst (batch res ! k, target_y res ! k) = t_state tr \<and>
           length (snd (batch res ! k, target_y res ! k)) = length (t_q_value tr) \<and>
           t_action tr < length (t_q_value tr) \<and>
           (\<forall>j. j \<noteq> t_action tr \<longrightarrow> snd (batch res ! k, target_y res ! k) ! j = t_q_value tr ! j)"
    by (rule bspec)
  then have "\<exists>tr\<in>set (fst el). batch res ! k = t_state tr \<and>
            length (target_y res ! k) = length (t_q_value tr) \<and>
            t_action tr < length (t_q_value tr) \<and>
            (\<forall>j. j \<noteq> t_action tr \<longrightarrow> target_y res ! k ! j = t_q_value tr ! j)"
    by simp
  with el show "\<exists>el\<in>set (r_played res). \<exists>tr\<in>set (fst el).
            batch res ! k = t_state tr \<and>
            length (target_y res ! k) = length (t_q_value tr) \<and>
            t_action tr < length (t_q_value tr) \<and>
            (\<forall>j. j \<noteq> t_action tr \<longrightarrow> target_y res ! k ! j = t_q_value tr ! j)"
    by (rule bexI [rotated])
qed

theorem target_vector_shape_witness:
  "create_batch 1 (stub_world 3 [1, 0] (\<lambda>k. [1])) 0 0 0 1 True None 1 (1 / 5) =
     Some (Inr \<lparr>batch = [0, 0, 0], target_y = [[3, 0], [2, 0], [1, 0]],
                logged = (1, 3, Some 3, 3), r_env = 3, r_rng = 2,
                r_played =
                  [([(0, [1, 0], 0, 1), (0, [1, 0], 0, 1), (0, [1, 0], 0, 1)], None)]\<rparr>) \<and>
   length [[3, 0], [2, 0], [1, 0::real]] = length [0::nat, 0, 0] \<and>
   length ([[3, 0], [2, 0], [1, 0::real]] ! 0) = length (t_q_value (0::nat, [1, 0], 0, 1)) \<and>
   [[3, 0], [2, 0], [1, 0::real]] ! 0 ! 1 = t_q_value (0::nat, [1, 0], 0, 1) ! 1"
proof -
  let ?res = "\<lparr>batch = [0::nat, 0, 0], target_y = [[3, 0], [2, 0], [1, 0]],
                logged = (1, 3, Some 3, 3), r_env = 3::nat, r_rng = 2::nat,
                r_played =
                  [([(0::nat, [1, 0], 0, 1), (0, [1, 0], 0, 1), (0, [1, 0], 0, 1)], None)]\<rparr>"
  have h: "create_batch 1 (stub_world 3 [1, 0] (\<lambda>k. [1])) 0 0 0 1 True None 1 (1 / 5) =
      Some (Inr ?res)"
    by (simp add: batch_simps)
  note t = target_vector_shape [OF h]
  from t have a: "length [[3, 0], [2, 0], [1, 0::real]] = length [0::nat, 0, 0]" by simp
  from t have "\<forall>k<length (batch ?res). \<exists>el\<in>set (r_played ?res). \<exists>tr\<in>set (fst el).
            batch ?res ! k = t_state tr \<and>
            length (target_y ?res ! k) = length (t_q_value tr) \<and>
            t_action tr < length (t_q_value tr) \<and>
            (\<forall>j. j \<noteq> t_action tr \<longrightarrow> target_y ?res ! k ! j = t_q_value tr ! j)"
    by (rule conjunct2)
  from this [rule_format, of 0]
  have b: "length ([[3, 0], [2, 0], [1, 0::real]] ! 0) = length (t_q_value (0::nat, [1, 0], 0, 1)) \<and>
      [[3, 0], [2, 0], [1, 0::real]] ! 0 ! 1 = t_q_value (0::nat, [1, 0], 0, 1) ! 1"
    by simp
  from h a b show ?thesis by (intro conjI) simp_all
qed

text \<open>
  The two vectors need not differ at all: on the stub environment that reports done at
  the first step, with prediction \<open>[1, 0]\<close>, the greedy action 0 earns reward 1, the
  1-step target scalar is 1, and the target vector equals the prediction.
\<close>

theorem target_vector_shape_counterexample:
  "create_batch 0 (stub_world 1 [1, 0] (\<lambda>k. [1])) 0 0 0 1 False (Some 300) 1 (1 / 5) =
     Some (Inr \<lparr>batch = [0], target_y = [[1, 0]], logged = (0, 1, Some 1, 1),
                r_env = 1, r_rng = 0, r_played = [([(0, [1, 0], 0, 1)], None)]\<rparr>) \<and>
   [[1, 0::real]] ! 0 = t_q_value (0::nat, [1, 0], 0, 1)"
  by (simp add: batch_simps)

text \<open>
  C8 (as amended). With an episode count of zero (or below) the batch builder raises: the
  maximum of the empty \<^verbatim>\<open>rewards\<close> sequence in the log statement is a \<^verbatim>\<open>ValueError\<close>, and no
  guard precedes it. With a positive episode count, whenever the episodes were played to
  the end, \<^verbatim>\<open>rewards\<close> is not empty and the logged mean and maximum are defined.
\<close>

theorem empty_batch_statistic:
  "(num_episodes \<le> 0 \<longrightarrow>
      create_batch iter_no w e g m num_episodes n_steps steps_limit gamma tau = Some (Inl ValueError)) \<and>
   (\<forall>bs. 0 < num_episodes \<and>
      episodes_loop w m steps_limit n_steps gamma tau (nat num_episodes)
        \<lparr>samples = [], rewards = [], b_env = e, b_rng = g, played = []\<rparr> = Some (Inr bs) \<longrightarrow>
      (\<exists>mean mx. log_stats iter_no (samples bs) (rewards bs) =
         Inr (iter_no, length (samples bs), Some mean, mx)))"
proof (intro conjI allI impI)
  assume "num_episodes \<le> 0"
  then have "nat num_episodes = 0" by simp
  then show "create_batch iter_no w e g m num_episodes n_steps steps_limit gamma tau =
      Some (Inl ValueError)"
    by (simp add: create_batch_def log_stats_def np_max_def)
next
  fix bs
  assume a: "0 < num_episodes \<and>
      episodes_loop w m steps_limit n_steps gamma tau (nat num_episodes)
        \<lparr>samples = [], rewards = [], b_env = e, b_rng = g, played = []\<rparr> = Some (Inr bs)"
  then have loop: "episodes_loop w m steps_limit n_steps gamma tau (nat num_episodes)
        \<lparr>samples = [], rewards = [], b_env = e, b_rng = g, played = []\<rparr> = Some (Inr bs)"
    by simp
  from episodes_loop_Inr [OF loop] a have "length (rewards bs) = nat num_episodes" by auto
  with a have "rewards bs \<noteq> []" by auto
  then show "\<exists>mean mx. log_stats iter_no (samples bs) (rewards bs) =
         Inr (iter_no, length (samples bs), Some mean, mx)"
    by (cases "rewards bs") (simp_all add: log_stats_def np_max_def np_mean_def)
qed

theorem empty_batch_statistic_witness:
  "(0::int) \<le> 0 \<and>
   create_batch 3 (stub_world 3 [1, 0] (\<lambda>k. [1])) 0 0 0 0 True None 1 (1 / 5) =
     Some (Inl ValueError) \<and>
   (0::int) < 1 \<and>
   episodes_loop (stub_world 3 [1, 0] (\<lambda>k. [1])) 0 None True 1 (1 / 5) (nat 1)
       \<lparr>samples = [], rewards = [], b_env = 0, b_rng = 0, played = []\<rparr> =
     Some (Inr \<lparr>samples = [(0, [1, 0]), (0, [2, 0]), (0, [3, 0])], rewards = [3],
                b_env = 3, b_rng = 0,
                played = [([(0, [1, 0], 0, 1), (0, [1, 0], 0, 1), (0, [1, 0], 0, 1)], None)]\<rparr>) \<and>
   (\<exists>mean mx. log_stats 3 [(0::nat, [1, 0]), (0, [2, 0]), (0, [3, 0])] [3] =
      Inr (3, length [(0::nat, [1, 0]), (0, [2, 0]), (0, [3, 0::real])], Some mean, mx))"
proof -
  let ?w = "stub_world 3 [1, 0] (\<lambda>k. [1])"
  let ?bs = "\<lparr>samples = [(0::nat, [1, 0]), (0, [2, 0]), (0, [3, 0])], rewards = [3],
                b_env = 3::nat, b_rng = 0::nat,
                played = [([(0::nat, [1, 0], 0, 1), (0, [1, 0], 0, 1), (0, [1, 0], 0, 1)], None)]\<rparr>"
  have z: "(0::int) \<le> 0" and p: "(0::int) < 1" by simp_all
  have loop: "episodes_loop ?w 0 None True 1 (1 / 5) (nat 1)
       \<lparr>samples = [], rewards = [], b_env = 0, b_rng = 0, played = []\<rparr> = Some (Inr ?bs)"
    by (simp add: batch_simps)
  from empty_batch_statistic [of 0 3 ?w 0 0 0 True None 1 "1 / 5"] z
  have a: "create_batch 3 ?w 0 0 0 0 True None 1 (1 / 5) = Some (Inl ValueError)" by blast
  from empty_batch_statistic [of 1 3 ?w 0 0 0 True None 1 "1 / 5"] p loop
  have "\<exists>mean mx. log_stats 3 (samples ?bs) (rewards ?bs) =
      Inr (3, length (samples ?bs), Some mean, mx)" by blast
  then have b: "\<exists>mean mx. log_stats 3 [(0::nat, [1, 0]), (0, [2, 0]), (0, [3, 0])] [3] =
      Inr (3, length [(0::nat, [1, 0]), (0, [2, 0]), (0, [3, 0::real])], Some mean, mx)"
    by (simp only: batch_state.simps)
  from z a p loop b show ?thesis by (intro conjI)
qed

text \<open>The unguarded statistic at an episode count of zero.\<close>

theorem empty_batch_statistic_counterexample:
  "create_batch 7 (stub_world 3 [1, 0] (\<lambda>k. [1])) 0 0 0 0 False (Some 300) 1 (1 / 5) =
     Some (Inl ValueError)"
  by (simp add: batch_simps)

section \<open>The fitting of one training iteration\<close>

lemma foldl_min_fold: "foldl min (x::real) ys = fold min ys x"
  by (induction ys arbitrary: x) (simp_all add: min.commute)

lemma foldl_min_Min: "foldl min (x::real) ys = Min (set (x # ys))"
  by (simp only: foldl_min_fold Min.set_eq_fold)

lemma np_min_Min: "np_min xs = Inr l \<longleftrightarrow> xs \<noteq> [] \<and> l = Min (set xs)"
  by (cases xs) (auto simp: np_min_def foldl_min_Min simp del: foldl_Cons)

lemma np_max_Max: "np_max xs = Inr l \<longleftrightarrow> xs \<noteq> [] \<and> l = Max (set xs)"
  by (cases xs) (auto simp: np_max_def foldl_max_Max simp del: foldl_Cons)

lemma model_fit_history:
  "model_fit w (fit_model_after w b ty i m0) b ty =
     (history_at w b ty m0 i, fit_model_after w b ty (Suc i) m0)"
  by (simp add: history_at_def)

lemma fit_epochs_started:
  assumes "fit_epochs w b ty [i ..< L]
             \<lparr>model = fit_model_after w b ty i m0, start_loss = Some sl, loss = l0, epoch = e0\<rparr>
           = Inr fs"
    and "i < L"
  shows "\<exists>n. epoch fs = Some n \<and> i \<le> n \<and> n < L \<and>
           model fs = fit_model_after w b ty (Suc n) m0 \<and> start_loss fs = Some sl \<and>
           (\<forall>k. i \<le> k \<and> k < n \<longrightarrow> \<not> ratio_exceeds sl (Min (set (history_at w b ty m0 k)))) \<and>
           (Suc n < L \<longrightarrow> ratio_exceeds sl (Min (set (history_at w b ty m0 n))))"
  using assms
proof (induction "L - i" arbitrary: i l0 e0)
  case 0
  then show ?case by simp
next
  case (Suc x)
  let ?h = "history_at w b ty m0 i"
  let ?m' = "fit_model_after w b ty (Suc i) m0"
  from Suc.prems(2) have upt: "[i ..< L] = i # [Suc i ..< L]" by (rule upt_conv_Cons)
  from Suc.prems(1) obtain l where l: "np_min ?h = Inr l"
    unfolding upt by (cases "np_min ?h") (simp_all add: model_fit_history del: fit_model_after.simps)
  then have l_eq: "l = Min (set ?h)" by (simp add: np_min_Min)
  show ?case
  proof (cases "ratio_exceeds sl l")
    case True
    with Suc.prems(1) l have "fs = \<lparr>model = ?m', start_loss = Some sl, loss = Some l, epoch = Some i\<rparr>"
      unfolding upt by (simp add: model_fit_history del: fit_model_after.simps)
    with True l_eq Suc.prems(2) show ?thesis by auto
  next
    case False
    with Suc.prems(1) l have rec: "fit_epochs w b ty [Suc i ..< L]
        \<lparr>model = ?m', start_loss = Some sl, loss = Some l, epoch = Some i\<rparr> = Inr fs"
      unfolding upt by (simp add: model_fit_history del: fit_model_after.simps)
    show ?thesis
    proof (cases "Suc i < L")
      case True
      from Suc.hyps(2) have "x = L - Suc i" by simp
      from Suc.hyps(1) [OF this rec True] obtain n where
        n: "epoch fs = Some n" "Suc i \<le> n" "n < L"
          "model fs = fit_model_after w b ty (Suc n) m0" "start_loss fs = Some sl"
          "\<forall>k. Suc i \<le> k \<and> k < n \<longrightarrow> \<not> ratio_exceeds sl (Min (set (history_at w b ty m0 k)))"
          "Suc n < L \<longrightarrow> ratio_exceeds sl (Min (set (history_at w b ty m0 n)))"
        by blast
      have "\<not> ratio_exceeds sl (Min (set (history_at w b ty m0 k)))" if "i \<le> k \<and> k < n" for k
      proof (cases "k = i")
        case True
        with False l_eq show ?thesis by simp
      next
        case False
        with that have "Suc i \<le> k \<and> k < n" by simp
        with n(6) show ?thesis by blast
      qed
      with n show ?thesis by (intro exI [of _ n]) auto
    next
      case False
      with Suc.prems(2) have "[Suc i ..< L] = []" by simp
      with rec have "fs = \<lparr>model = ?m', start_loss = Some sl, loss = Some l, epoch = Some i\<rparr>"
        by simp
      with False Suc.prems(2) show ?thesis by auto
    qed
  qed
qed

text \<open>
  C5 (as amended). In one iteration of the training loop the model is fitted \<open>n + 1\<close> times,
  at most \<open>epoch_limit = 10\<close>. The early-stop test is made from the second fit call on,
  and compares the greatest loss of the first call's history with the least loss of the
  current call's history: no call \<open>k\<close> with \<open>1 \<le> k < n\<close> passed the test, and if fewer
  than ten calls were made then the last one, not the first, passed it.
\<close>

theorem fit_round_epochs:
  assumes "fit_round w m b ty = Inr fs"
  shows "\<exists>n. epoch fs = Some n \<and> Suc n \<le> epoch_limit \<and>
           model fs = fit_model_after w b ty (Suc n) m \<and>
           (\<forall>k. 1 \<le> k \<and> k < n \<longrightarrow>
              \<not> ratio_exceeds (Max (set (history_at w b ty m 0))) (Min (set (history_at w b ty m k)))) \<and>
           (Suc n < epoch_limit \<longrightarrow> 1 \<le> n \<and>
              ratio_exceeds (Max (set (history_at w b ty m 0))) (Min (set (history_at w b ty m n))))"
proof -
  let ?h = "history_at w b ty m 0"
  let ?m' = "fit_model_after w b ty (Suc 0) m"
  have upt: "[0 ..< epoch_limit] = 0 # [Suc 0 ..< epoch_limit]"
    by (simp add: epoch_limit_def upt_conv_Cons)
  have fit0: "model_fit w m b ty = (?h, ?m')"
    using model_fit_history [of w b ty 0 m] by simp
  from assms have run: "fit_epochs w b ty (0 # [Suc 0 ..< epoch_limit])
       \<lparr>model = m, start_loss = None, loss = None, epoch = None\<rparr> = Inr fs"
    by (simp only: fit_round_def upt)
  then obtain l where l: "np_min ?h = Inr l"
    by (cases "np_min ?h") (simp_all add: fit0 del: fit_model_after.simps)
  with run obtain mx where mx: "np_max ?h = Inr mx"
    by (cases "np_max ?h") (simp_all add: fit0 del: fit_model_after.simps)
  then have mx_eq: "mx = Max (set ?h)" by (simp add: np_max_Max)
  from run l mx have rec: "fit_epochs w b ty [Suc 0 ..< epoch_limit]
       \<lparr>model = ?m', start_loss = Some mx, loss = Some l, epoch = Some 0\<rparr> = Inr fs"
    by (simp add: fit0 del: fit_model_after.simps)
  have "Suc 0 < epoch_limit" by (simp add: epoch_limit_def)
  from fit_epochs_started [OF rec this] obtain n where
    n: "epoch fs = Some n" "Suc 0 \<le> n" "n < epoch_limit"
      "model fs = fit_model_after w b ty (Suc n) m"
      "\<forall>k. Suc 0 \<le> k \<and> k < n \<longrightarrow> \<not> ratio_exceeds mx (Min (set (history_at w b ty m k)))"
      "Suc n < epoch_limit \<longrightarrow> ratio_exceeds mx (Min (set (history_at w b ty m n)))"
    by blast
  then show ?thesis unfolding mx_eq by (intro exI [of _ n]) auto
qed

theorem fit_round_epochs_witness:
  "fit_round (stub_world 3 [1, 0] (\<lambda>k. if k < 3 then [4] else [2, 5])) 0 [0] [[1]] =
     Inr \<lparr>model = 4, start_loss = Some 4, loss = Some 2, epoch = Some 3\<rparr> \<and>
   (\<exists>n. Some 3 = Some n \<and> Suc n \<le> epoch_limit \<and>
      ratio_exceeds
        (Max (set (history_at (stub_world 3 [1, 0] (\<lambda>k. if k < 3 then [4] else [2, 5])) [0] [[1]] 0 0)))
        (Min (set (history_at (stub_world 3 [1, 0] (\<lambda>k. if k < 3 then [4] else [2, 5])) [0] [[1]] 0 n))))"
proof -
  let ?w = "stub_world 3 [1, 0] (\<lambda>k. if k < 3 then [4] else [2, 5])"
  let ?fs = "\<lparr>model = 4::nat, start_loss = Some 4, loss = Some 2, epoch = Some 3\<rparr>"
  have h: "fit_round ?w 0 [0] [[1]] = Inr ?fs"
    by (simp add: fit_round_def epoch_limit_def stub_world_def np_min_def np_max_def
        ratio_exceeds_def upt_rec)
  from fit_round_epochs [OF h] obtain n where
    n: "epoch ?fs = Some n" "Suc n \<le> epoch_limit"
      "Suc n < epoch_limit \<longrightarrow> 1 \<le> n \<and>
         ratio_exceeds (Max (set (history_at ?w [0] [[1]] 0 0))) (Min (set (history_at ?w [0] [[1]] 0 n)))"
    by blast
  from n(1) have n3: "Some 3 = Some n" by simp
  then have "Suc n < epoch_limit" by (auto simp: epoch_limit_def)
  with n(3) have "ratio_exceeds (Max (set (history_at ?w [0] [[1]] 0 0)))
      (Min (set (history_at ?w [0] [[1]] 0 n)))" by blast
  with n3 n(2) have "\<exists>n. Some 3 = Some n \<and> Suc n \<le> epoch_limit \<and>
      ratio_exceeds (Max (set (history_at ?w [0] [[1]] 0 0))) (Min (set (history_at ?w [0] [[1]] 0 n)))"
    by blast
  with h show ?thesis by (intro conjI)
qed

text \<open>
  The test is not made after the first call: with the loss history \<open>[3, 1]\<close> for the first
  fit call and \<open>[3]\<close> for every later one, the ratio of the first call's greatest loss to
  its least loss is 3, yet all ten calls are made.
\<close>

theorem fit_round_epochs_counterexample:
  "fit_round (stub_world 3 [1, 0] (\<lambda>k. if k = 0 then [3, 1] else [3])) 0 [0] [[1]] =
     Inr \<lparr>model = 10, start_loss = Some 3, loss = Some 3, epoch = Some 9\<rparr> \<and>
   ratio_exceeds
     (Max (set (history_at (stub_world 3 [1, 0] (\<lambda>k. if k = 0 then [3, 1] else [3])) [0] [[1]] 0 0)))
     (Min (set (history_at (stub_world 3 [1, 0] (\<lambda>k. if k = 0 then [3, 1] else [3])) [0] [[1]] 0 0)))"
  by (simp add: fit_round_def epoch_limit_def stub_world_def np_min_def np_max_def
      ratio_exceeds_def upt_rec history_at_def)

end
